theory Spec2Isabelle
  imports Complex_Main
begin

section \<open>IPTVFlow: liveness verification and candidate selection\<close>

text \<open>
  A shallow embedding of the probing core of \<^verbatim>\<open>src/iptvflow.py\<close>:
  \<^verbatim>\<open>get_host_key\<close>, \<^verbatim>\<open>is_valid_hls_content\<close>, \<^verbatim>\<open>is_valid_hls_stream\<close>,
  \<^verbatim>\<open>test_single_stream\<close>, \<^verbatim>\<open>test_hosts_two_phase\<close> (with its nested
  \<^verbatim>\<open>fallback_test\<close>) and \<^verbatim>\<open>build_final_playlist\<close>.

  Conventions of the embedding.
  \<^item> A Python \<^verbatim>\<open>str\<close> whose characters are only compared (a URL, a host name, a
    label) is a \<open>string\<close>. The decoded text of a response body, on whose characters
    \<^verbatim>\<open>strip()\<close> depends, is a list of Unicode code points (\<open>nat list\<close>); a literal of
    the source is turned into code points by \<open>codepoints\<close>.
  \<^item> An exception (an instance of a subclass of \<^verbatim>\<open>Exception\<close>) is a value of type
    \<open>exn\<close>; a call that may raise returns \<open>exn + 'a\<close>, with \<open>Inl\<close> the raise.
  \<^item> Everything outside the process (the network, the clock, the external tools) is
    a state of type \<open>'w\<close>, passed explicitly: an operation takes the state and returns
    its result with the next state.
  \<^item> A dictionary that is iterated is an association list in iteration order, a
    dictionary that is only looked up or assigned by key is a map.
  \<^item> The thread pools run the probes of different hosts (and the fallback chains of
    different hosts) concurrently; the embedding runs them one after the other, in
    the iteration order of the dictionary. The chain of one host is sequential in
    the source as well.
\<close>

subsection \<open>Strings\<close>

text \<open>\<^verbatim>\<open>s.startswith(p)\<close>, \<^verbatim>\<open>s.endswith(p)\<close> and \<^verbatim>\<open>k in s\<close>.\<close>

definition startswith :: "'a list \<Rightarrow> 'a list \<Rightarrow> bool" where
  "startswith s p = (take (length p) s = p)"

definition endswith :: "'a list \<Rightarrow> 'a list \<Rightarrow> bool" where
  "endswith s p = (length p \<le> length s \<and> drop (length s - length p) s = p)"

fun contains :: "'a list \<Rightarrow> 'a list \<Rightarrow> bool" where
  "contains k [] = (k = [])"
| "contains k (c # cs) = (startswith (c # cs) k \<or> contains k cs)"

text \<open>The code points of an ASCII literal of the source.\<close>

definition codepoints :: "string \<Rightarrow> nat list" where
  "codepoints s = map of_char s"

text \<open>
  \<^verbatim>\<open>str.isspace\<close> on one code point, which is what \<^verbatim>\<open>str.strip()\<close> removes at both
  ends: U+0009 to U+000D, U+001C to U+001F, U+0020, U+0085, U+00A0, U+1680, U+2000 to
  U+200A, U+2028, U+2029, U+202F, U+205F and U+3000.
\<close>

definition isspace :: "nat \<Rightarrow> bool" where
  "isspace n =
     ((9 \<le> n \<and> n \<le> 13) \<or> (28 \<le> n \<and> n \<le> 32) \<or> n = 133 \<or> n = 160 \<or> n = 5760 \<or>
      (8192 \<le> n \<and> n \<le> 8202) \<or> n = 8232 \<or> n = 8233 \<or> n = 8239 \<or> n = 8287 \<or> n = 12288)"

definition strip :: "nat list \<Rightarrow> nat list" where
  "strip s = rev (dropWhile isspace (rev (dropWhile isspace s)))"

text \<open>\<^verbatim>\<open>str(n)\<close> for an integer: its decimal digits.\<close>

definition digit_char :: "nat \<Rightarrow> char" where
  "digit_char d = ''0123456789'' ! d"

function str_nat :: "nat \<Rightarrow> string" where
  "str_nat n = (if n < 10 then [digit_char n] else str_nat (n div 10) @ [digit_char (n mod 10)])"
  by pat_completeness auto
termination
  by (relation "measure id") auto

declare str_nat.simps [simp del]

definition str_int :: "int \<Rightarrow> string" where
  "str_int i = (if i < 0 then CHR ''-'' # str_nat (nat (- i)) else str_nat (nat i))"

subsection \<open>Exceptions\<close>

text \<open>
  An exception carries its class, as far as the source tells classes apart, and its
  message, which is what \<^verbatim>\<open>str(e)\<close> returns.
\<close>

datatype exn_class = ValueError | CalledProcessError | FileNotFoundError | OtherException

datatype exn = Exn exn_class string

fun str_exn :: "exn \<Rightarrow> string" where
  "str_exn (Exn c m) = m"

subsection \<open>Configuration\<close>

definition TIMEOUT :: int where
  "TIMEOUT = 8"

definition HTTP_OK :: int where
  "HTTP_OK = 200"

definition M3U_HEADER :: string where
  "M3U_HEADER = ''#EXTM3U''"

definition HLS_EXTENSIONS :: "string list" where
  "HLS_EXTENSIONS = [''.m3u8'', ''.m3u'']"

text \<open>\<^verbatim>\<open>u.endswith(Config.HLS_EXTENSIONS)\<close>: the string ends with one of the tuple.\<close>

definition endswith_any :: "string \<Rightarrow> string list \<Rightarrow> bool" where
  "endswith_any u exts = list_ex (endswith u) exts"

subsection \<open>The Host Resolver\<close>

text \<open>
  \<^verbatim>\<open>urlparse\<close> is the standard library's. It is a parameter of the model: a function
  from the URL to the parse result, or to the exception it raises. Of the result the
  source reads \<^verbatim>\<open>scheme\<close>, \<^verbatim>\<open>hostname\<close> (\<^verbatim>\<open>None\<close> or a string) and \<^verbatim>\<open>port\<close>, a
  property that is \<^verbatim>\<open>None\<close> when the authority has no port, the port as an integer,
  or raises \<^verbatim>\<open>ValueError\<close> when the port is not a number or is out of range.
\<close>

record parse_result =
  scheme :: string
  hostname :: "string option"
  port :: "exn + nat option"

text \<open>
  \<^verbatim>\<open>
  def get_host_key(u):
      try:
          p = urlparse(u)
          port = p.port or (443 if p.scheme == "https" else 80)
          return f"{p.hostname}:{port}" if p.hostname else None
      except Exception:
          return None
  \<close>
  \<^verbatim>\<open>p.port or d\<close> is \<open>d\<close> when the port is \<^verbatim>\<open>None\<close> and also when it is \<open>0\<close>;
  \<^verbatim>\<open>p.hostname\<close> is false when it is \<^verbatim>\<open>None\<close> or empty.
\<close>

definition default_port :: "string \<Rightarrow> nat" where
  "default_port sch = (if sch = ''https'' then 443 else 80)"

definition get_host_key :: "(string \<Rightarrow> exn + parse_result) \<Rightarrow> string \<Rightarrow> string option" where
  "get_host_key urlparse u =
     (case urlparse u of
        Inl e \<Rightarrow> None
      | Inr p \<Rightarrow>
          (case port p of
             Inl e \<Rightarrow> None
           | Inr po \<Rightarrow>
               (let prt = (case po of
                             None \<Rightarrow> default_port (scheme p)
                           | Some n \<Rightarrow> if n \<noteq> 0 then n else default_port (scheme p))
                in case hostname p of
                     None \<Rightarrow> None
                   | Some h \<Rightarrow> if h \<noteq> [] then Some (h @ '':'' @ str_nat prt) else None)))"

subsection \<open>Content classification\<close>

text \<open>
  \<^verbatim>\<open>
  def is_valid_hls_content(text):
      txt = text.strip()
      return txt.startswith(Config.M3U_HEADER) and any(k in txt for k in ["#EXTINF", "#EXT-X-STREAM-INF"])
  \<close>
\<close>

definition is_valid_hls_content :: "nat list \<Rightarrow> bool" where
  "is_valid_hls_content text =
     (let txt = strip text
      in startswith txt (codepoints M3U_HEADER) \<and>
         list_ex (\<lambda>k. contains (codepoints k) txt) [''#EXTINF'', ''#EXT-X-STREAM-INF''])"

subsection \<open>The Prober\<close>

text \<open>
  The outside world, as the two probers use it. \<open>clock\<close> is \<^verbatim>\<open>time.time()\<close>.
  \<open>requests_head url t\<close> and \<open>requests_get url t\<close> are \<^verbatim>\<open>requests.head\<close> and
  \<^verbatim>\<open>requests.get\<close> with timeout \<open>t\<close>: they raise, or return a response, of which the
  source reads the status code and, for a GET, the body in chunks
  (\<^verbatim>\<open>r.iter_content(512)\<close>); reading the body may raise once the chunks that did
  arrive are consumed. \<open>decode_utf8\<close> is \<^verbatim>\<open>content.decode('utf-8', errors='ignore')\<close>,
  from bytes to code points, which never raises, and \<open>str_lower\<close> is \<^verbatim>\<open>str.lower\<close>; both
  are the standard library's and are parameters of the model. The deep validators are external tools (\<^verbatim>\<open>ffprobe\<close>,
  \<^verbatim>\<open>ffmpeg\<close>, \<^verbatim>\<open>tesseract\<close>), taken by their results: \<^verbatim>\<open>run_ffprobe\<close> catches every
  exception itself and returns a Boolean; \<^verbatim>\<open>is_ffmpeg_available\<close> and
  \<^verbatim>\<open>is_ocr_available\<close> catch two exception classes only, and the handler of
  \<^verbatim>\<open>run_ocr_check\<close> removes a file, so these three may raise.
\<close>

record response =
  status_code :: int
  chunks :: "string list"
  stream_error :: "exn option"

record 'w env =
  clock :: "'w \<Rightarrow> real"
  requests_head :: "string \<Rightarrow> int \<Rightarrow> 'w \<Rightarrow> (exn + int) \<times> 'w"
  requests_get :: "string \<Rightarrow> int \<Rightarrow> 'w \<Rightarrow> (exn + response) \<times> 'w"
  decode_utf8 :: "string \<Rightarrow> nat list"
  str_lower :: "nat list \<Rightarrow> nat list"
  is_ffmpeg_available :: "'w \<Rightarrow> (exn + bool) \<times> 'w"
  run_ffprobe :: "string \<Rightarrow> int \<Rightarrow> 'w \<Rightarrow> bool \<times> 'w"
  is_ocr_available :: "'w \<Rightarrow> (exn + bool) \<times> 'w"
  run_ocr_check :: "string \<Rightarrow> int \<Rightarrow> 'w \<Rightarrow> (exn + bool) \<times> 'w"

text \<open>The Probe Verdict: the dictionary \<^verbatim>\<open>{"alive", "latency", "type", "reason"}\<close>.\<close>

record verdict =
  alive :: bool
  latency :: real
  type :: string
  reason :: string

text \<open>
  \<^verbatim>\<open>
  content = b""
  for chunk in r.iter_content(512):
      content += chunk
      if len(content) > 2048:
          break
  \<close>
\<close>

fun read_chunks :: "string \<Rightarrow> string list \<Rightarrow> exn option \<Rightarrow> exn + string" where
  "read_chunks content [] err = (case err of None \<Rightarrow> Inr content | Some e \<Rightarrow> Inl e)"
| "read_chunks content (chunk # rest) err =
     (let content' = content @ chunk
      in if length content' > 2048 then Inr content' else read_chunks content' rest err)"

text \<open>
  The body of \<^verbatim>\<open>is_valid_hls_stream\<close>, in three parts: what follows the fetch
  (classification and deep validation), the GET, and the HEAD pre-check before it.
  Each returns the verdict, or the exception that leaves the \<^verbatim>\<open>try\<close> block.
\<close>

text \<open>
  \<^verbatim>\<open>"master" if "#EXT-X-STREAM-INF" in text else ("media" if ".ts" in text.lower() else "hls")\<close>
\<close>

definition stream_type_of :: "(nat list \<Rightarrow> nat list) \<Rightarrow> nat list \<Rightarrow> string" where
  "stream_type_of low text =
     (if contains (codepoints ''#EXT-X-STREAM-INF'') text then ''master''
      else if contains (codepoints ''.ts'') (low text) then ''media'' else ''hls'')"

definition hls_classify :: "'w env \<Rightarrow> string \<Rightarrow> real \<Rightarrow> string \<Rightarrow> 'w \<Rightarrow> (exn + verdict) \<times> 'w" where
  "hls_classify env u start content w =
     (let text = decode_utf8 env content;
          lat = clock env w - start
      in if \<not> is_valid_hls_content text
         then (Inr \<lparr>alive = False, latency = lat, type = ''not_hls'', reason = ''Not valid M3U8''\<rparr>, w)
         else
           (let result = \<lparr>alive = True, latency = lat, type = stream_type_of (str_lower env) text,
                          reason = ''OK''\<rparr>
            in if \<not> endswith_any u HLS_EXTENSIONS
               then (case is_ffmpeg_available env w of
                       (Inl e, w1) \<Rightarrow> (Inl e, w1)
                     | (Inr avail, w1) \<Rightarrow>
                         if avail
                         then (case run_ffprobe env u 8 w1 of
                                 (ok, w2) \<Rightarrow>
                                   if \<not> ok
                                   then (Inr (result\<lparr>alive := False, reason := ''FFmpeg validation failed''\<rparr>), w2)
                                   else (Inr result, w2))
                         else (Inr result, w1))
               else (Inr result, w)))"

definition hls_get :: "'w env \<Rightarrow> string \<Rightarrow> int \<Rightarrow> real \<Rightarrow> 'w \<Rightarrow> (exn + verdict) \<times> 'w" where
  "hls_get env u timeout start w =
     (case requests_get env u timeout w of
        (Inl e, w1) \<Rightarrow> (Inl e, w1)
      | (Inr r, w1) \<Rightarrow>
          if status_code r \<noteq> HTTP_OK
          then (Inr \<lparr>alive = False, latency = clock env w1 - start, type = ''dead'',
                     reason = ''GET '' @ str_int (status_code r)\<rparr>, w1)
          else (case read_chunks [] (chunks r) (stream_error r) of
                  Inl e \<Rightarrow> (Inl e, w1)
                | Inr content \<Rightarrow> hls_classify env u start content w1))"

definition hls_try :: "'w env \<Rightarrow> string \<Rightarrow> int \<Rightarrow> real \<Rightarrow> 'w \<Rightarrow> (exn + verdict) \<times> 'w" where
  "hls_try env u timeout start w =
     (case requests_head env u (timeout div 2) w of
        (Inl e, w1) \<Rightarrow> hls_get env u timeout start w1
      | (Inr sc, w1) \<Rightarrow>
          if sc \<notin> set [HTTP_OK, 206, 301, 302]
          then (Inr \<lparr>alive = False, latency = clock env w1 - start, type = ''dead'',
                     reason = ''HEAD '' @ str_int sc\<rparr>, w1)
          else hls_get env u timeout start w1)"

text \<open>
  \<^verbatim>\<open>is_valid_hls_stream\<close>: the \<^verbatim>\<open>try\<close> block and its handler
  \<^verbatim>\<open>except Exception as e: return {"alive": False, ..., "type": "error", "reason": str(e)}\<close>.
  The result is a sum all the same, so that "it never raises" is a statement.
\<close>

definition is_valid_hls_stream :: "'w env \<Rightarrow> string \<Rightarrow> int \<Rightarrow> 'w \<Rightarrow> (exn + verdict) \<times> 'w" where
  "is_valid_hls_stream env u timeout w =
     (let start = clock env w
      in case hls_try env u timeout start w of
           (Inl e, w1) \<Rightarrow>
             (Inr \<lparr>alive = False, latency = clock env w1 - start, type = ''error'', reason = str_exn e\<rparr>, w1)
         | (Inr v, w1) \<Rightarrow> (Inr v, w1))"

text \<open>
  \<^verbatim>\<open>test_single_stream\<close>, the confirmatory prober: it returns a Boolean.
  \<^verbatim>\<open>
  try:
      r = requests.get(url, timeout=timeout, headers=headers, stream=True)
      if r.status_code != Config.HTTP_OK: return False
      ... read the prefix, decode ...
      if not is_valid_hls_content(text): return False
      if not url.endswith(Config.HLS_EXTENSIONS) and is_ocr_available():
          return run_ocr_check(url, timeout=15)
      return True
  except Exception:
      return False
  \<close>
\<close>

definition single_try :: "'w env \<Rightarrow> string \<Rightarrow> int \<Rightarrow> 'w \<Rightarrow> (exn + bool) \<times> 'w" where
  "single_try env u timeout w =
     (case requests_get env u timeout w of
        (Inl e, w1) \<Rightarrow> (Inl e, w1)
      | (Inr r, w1) \<Rightarrow>
          if status_code r \<noteq> HTTP_OK then (Inr False, w1)
          else (case read_chunks [] (chunks r) (stream_error r) of
                  Inl e \<Rightarrow> (Inl e, w1)
                | Inr content \<Rightarrow>
                    if \<not> is_valid_hls_content (decode_utf8 env content) then (Inr False, w1)
                    else if \<not> endswith_any u HLS_EXTENSIONS
                    then (case is_ocr_available env w1 of
                            (Inl e, w2) \<Rightarrow> (Inl e, w2)
                          | (Inr avail, w2) \<Rightarrow>
                              if avail then run_ocr_check env u 15 w2 else (Inr True, w2))
                    else (Inr True, w1)))"

definition test_single_stream :: "'w env \<Rightarrow> string \<Rightarrow> int \<Rightarrow> 'w \<Rightarrow> (exn + bool) \<times> 'w" where
  "test_single_stream env u timeout w =
     (case single_try env u timeout w of
        (Inl e, w1) \<Rightarrow> (Inr False, w1)
      | (Inr b, w1) \<Rightarrow> (Inr b, w1))"

subsection \<open>The Two-Phase Host Tester\<close>

text \<open>
  The tester calls \<^verbatim>\<open>is_valid_hls_stream(url)\<close> and reads the verdict it returns; it
  has no handler of its own. In the model the prober is a parameter \<open>P\<close>: any
  function from the URL and the outside world to a verdict and the next world.

  Every call of the prober is logged: the phase (1 or 2), the host on whose behalf
  the call is made, the URL and the verdict. The log is not in the source; it is
  what the statements about the number and the order of probes are made of.
\<close>

datatype event = Probe (ev_phase: nat) (ev_host: string) (ev_url: string) (ev_verdict: verdict)

type_synonym 'w prober = "string \<Rightarrow> 'w \<Rightarrow> verdict \<times> 'w"

definition run_probe :: "'w prober \<Rightarrow> nat \<Rightarrow> string \<Rightarrow> string \<Rightarrow> 'w \<times> event list \<Rightarrow> verdict \<times> ('w \<times> event list)" where
  "run_probe P ph h u s =
     (case P u (fst s) of (v, w1) \<Rightarrow> (v, (w1, snd s @ [Probe ph h u v])))"

text \<open>The Endpoint Quality Record: a value of the dictionary \<^verbatim>\<open>host_quality\<close>.\<close>

record quality =
  q_alive :: bool
  q_latency :: real
  q_type :: string
  representative_url :: "string option"
  trials :: nat

text \<open>A value of \<^verbatim>\<open>host_data\<close>: \<^verbatim>\<open>{"all_urls": urls, "rep_url": rep_url}\<close>.\<close>

record host_entry =
  all_urls :: "string list"
  rep_url :: "string option"

text \<open>
  \<^verbatim>\<open>rep_url = next((u for u in urls if u.endswith(Config.HLS_EXTENSIONS)), urls[0]) if urls else None\<close>
\<close>

definition pick_rep_url :: "string list \<Rightarrow> string option" where
  "pick_rep_url urls =
     (case urls of
        [] \<Rightarrow> None
      | u0 # _ \<Rightarrow>
          Some (case find (\<lambda>u. endswith_any u HLS_EXTENSIONS) urls of Some u \<Rightarrow> u | None \<Rightarrow> u0))"

definition build_host_data :: "(string \<times> string list) list \<Rightarrow> (string \<times> host_entry) list" where
  "build_host_data host_to_urls =
     map (\<lambda>(h, urls). (h, \<lparr>all_urls = urls, rep_url = pick_rep_url urls\<rparr>)) host_to_urls"

text \<open>
  Phase 1, one host: the representative is probed when \<^verbatim>\<open>data["rep_url"]\<close> is true
  (neither \<^verbatim>\<open>None\<close> nor empty), and the host gets its record when the verdict is
  alive. (\<^verbatim>\<open>initial_results\<close> is written and never read.)
\<close>

fun screen_host :: "'w prober \<Rightarrow> string \<times> host_entry \<Rightarrow>
    (string \<rightharpoonup> quality) \<times> ('w \<times> event list) \<Rightarrow> (string \<rightharpoonup> quality) \<times> ('w \<times> event list)" where
  "screen_host P (h, d) (hq, s) =
     (case rep_url d of
        None \<Rightarrow> (hq, s)
      | Some r \<Rightarrow>
          if r = [] then (hq, s)
          else (case run_probe P 1 h r s of
                  (result, s1) \<Rightarrow>
                    (if alive result
                     then hq(h \<mapsto> \<lparr>q_alive = True, q_latency = latency result, q_type = type result,
                                    representative_url = rep_url d, trials = 1\<rparr>)
                     else hq, s1)))"

text \<open>
  Between the phases, one host: a host with no record yet is queued with at most
  three of its other URLs, or gets the record \<^verbatim>\<open>no_fallback\<close> when it has none.
\<close>

fun queue_host :: "string \<times> host_entry \<Rightarrow>
    (string \<times> string list) list \<times> (string \<rightharpoonup> quality) \<Rightarrow> (string \<times> string list) list \<times> (string \<rightharpoonup> quality)" where
  "queue_host (h, d) (hosts_to_retry, hq) =
     (if hq h = None
      then (let candidates = filter (\<lambda>u. Some u \<noteq> rep_url d) (all_urls d)
            in if candidates \<noteq> []
               then (hosts_to_retry @ [(h, take 3 candidates)], hq)
               else (hosts_to_retry,
                     hq(h \<mapsto> \<lparr>q_alive = False, q_latency = 999, q_type = ''no_fallback'',
                              representative_url = rep_url d, trials = 1\<rparr>)))
      else (hosts_to_retry, hq))"

text \<open>
  \<^verbatim>\<open>
  def fallback_test(args):
      host, candidates = args
      for i, url in enumerate(candidates):
          res = is_valid_hls_stream(url)
          if res["alive"]:
              return host, True, {"latency": res["latency"], "type": res["type"], "url": url}, i + 1
      last_res = is_valid_hls_stream(candidates[-1]) if candidates else None
      return host, False, (last_res or {"latency": 999, "type": "all_failed"}), len(candidates)
  \<close>
  The third component is read for \<^verbatim>\<open>"latency"\<close>, \<^verbatim>\<open>"type"\<close> and, on success,
  \<^verbatim>\<open>"url"\<close>. \<^verbatim>\<open>last_res\<close> is a verdict, a dictionary of four keys, hence true.
\<close>

record final_result =
  fr_latency :: real
  fr_type :: string
  fr_url :: "string option"

fun fallback_loop :: "'w prober \<Rightarrow> string \<Rightarrow> string list \<Rightarrow> nat \<Rightarrow> 'w \<times> event list \<Rightarrow>
    (final_result \<times> nat) option \<times> ('w \<times> event list)" where
  "fallback_loop P h [] i s = (None, s)"
| "fallback_loop P h (u # rest) i s =
     (case run_probe P 2 h u s of
        (res, s1) \<Rightarrow>
          if alive res
          then (Some (\<lparr>fr_latency = latency res, fr_type = type res, fr_url = Some u\<rparr>, i + 1), s1)
          else fallback_loop P h rest (i + 1) s1)"

definition fallback_test :: "'w prober \<Rightarrow> string \<times> string list \<Rightarrow> 'w \<times> event list \<Rightarrow>
    (string \<times> bool \<times> final_result \<times> nat) \<times> ('w \<times> event list)" where
  "fallback_test P args s =
     (case args of
        (h, candidates) \<Rightarrow>
          (case fallback_loop P h candidates 0 s of
             (Some (fr, n), s1) \<Rightarrow> ((h, True, fr, n), s1)
           | (None, s1) \<Rightarrow>
               if candidates \<noteq> []
               then (case run_probe P 2 h (last candidates) s1 of
                       (last_res, s2) \<Rightarrow>
                         ((h, False,
                           \<lparr>fr_latency = latency last_res, fr_type = type last_res, fr_url = None\<rparr>,
                           length candidates), s2))
               else ((h, False, \<lparr>fr_latency = 999, fr_type = ''all_failed'', fr_url = None\<rparr>,
                      length candidates), s1)))"

text \<open>
  Phase 2, one queued host: the record made of what \<^verbatim>\<open>fallback_test\<close> returned.
  \<^verbatim>\<open>host_data[host]\<close> is a lookup by a key that was taken from \<^verbatim>\<open>host_data\<close>.
\<close>

fun retry_host :: "'w prober \<Rightarrow> (string \<times> host_entry) list \<Rightarrow> string \<times> string list \<Rightarrow>
    (string \<rightharpoonup> quality) \<times> ('w \<times> event list) \<Rightarrow> (string \<rightharpoonup> quality) \<times> ('w \<times> event list)" where
  "retry_host P host_data (h, cands) (hq, s) =
     (case fallback_test P (h, cands) s of
        ((h1, success, fr, n), s1) \<Rightarrow>
          (let rep = (case map_of host_data h1 of Some d \<Rightarrow> rep_url d | None \<Rightarrow> None)
           in if success
              then (hq(h1 \<mapsto> \<lparr>q_alive = True, q_latency = fr_latency fr, q_type = fr_type fr,
                               representative_url = fr_url fr, trials = 1 + n\<rparr>), s1)
              else (hq(h1 \<mapsto> \<lparr>q_alive = False, q_latency = fr_latency fr, q_type = fr_type fr,
                               representative_url = rep, trials = 1 + n\<rparr>), s1)))"

text \<open>
  \<^verbatim>\<open>test_hosts_two_phase\<close>: the three loops in sequence, from the empty
  \<^verbatim>\<open>host_quality\<close> and the empty log. It returns \<^verbatim>\<open>host_quality\<close>, with the outside
  world and the log at the end.
\<close>

definition test_hosts_two_phase :: "'w prober \<Rightarrow> (string \<times> string list) list \<Rightarrow> 'w \<Rightarrow>
    (string \<rightharpoonup> quality) \<times> ('w \<times> event list)" where
  "test_hosts_two_phase P host_to_urls w =
     (let host_data = build_host_data host_to_urls;
          phase1 = fold (screen_host P) host_data (Map.empty, (w, []));
          queued = fold queue_host host_data ([], fst phase1);
          hosts_to_retry = fst queued
      in if hosts_to_retry \<noteq> []
         then fold (retry_host P host_data) hosts_to_retry (snd queued, snd phase1)
         else (snd queued, snd phase1))"

text \<open>The probes of one phase made on behalf of one host, in the order of the log.\<close>

definition probes_of :: "nat \<Rightarrow> string \<Rightarrow> event list \<Rightarrow> event list" where
  "probes_of ph h tr = filter (\<lambda>e. ev_phase e = ph \<and> ev_host e = h) tr"

subsection \<open>The Channel Candidate Resolver\<close>

text \<open>
  An item of \<^verbatim>\<open>grouped\<close>, a candidate and an entry of the final list: the
  dictionaries \<^verbatim>\<open>{"url", "original_name"}\<close>, \<^verbatim>\<open>{"url", "latency", "original_name"}\<close>
  and \<^verbatim>\<open>{"channel", "original_name", "url"}\<close>.
\<close>

record item =
  item_url :: string
  item_original_name :: string

record candidate =
  cand_url :: string
  cand_latency :: real
  cand_original_name :: string

record selected =
  sel_channel :: string
  sel_original_name :: string
  sel_url :: string

text \<open>
  \<^verbatim>\<open>
  host = url_to_host.get(url)
  if host and host_quality.get(host, {}).get("alive"):
      latency = host_quality[host]["latency"]
      candidates.append({...})
  \<close>
\<close>

definition candidate_of :: "(string \<rightharpoonup> string) \<Rightarrow> (string \<rightharpoonup> quality) \<Rightarrow> item \<Rightarrow> candidate option" where
  "candidate_of url_to_host host_quality it =
     (case url_to_host (item_url it) of
        None \<Rightarrow> None
      | Some h \<Rightarrow>
          if h = [] then None
          else (case host_quality h of
                  None \<Rightarrow> None
                | Some q \<Rightarrow>
                    if q_alive q
                    then Some \<lparr>cand_url = item_url it, cand_latency = q_latency q,
                               cand_original_name = item_original_name it\<rparr>
                    else None))"

text \<open>
  The candidates of one channel, sorted: \<^verbatim>\<open>candidates.sort(key=lambda x: x["latency"])\<close>
  is a stable sort, as \<open>sort_key\<close> is.
\<close>

definition channel_candidates :: "(string \<rightharpoonup> string) \<Rightarrow> (string \<rightharpoonup> quality) \<Rightarrow> item list \<Rightarrow> candidate list" where
  "channel_candidates url_to_host host_quality items =
     sort_key cand_latency (List.map_filter (candidate_of url_to_host host_quality) items)"

definition channel_to_candidates :: "(string \<rightharpoonup> string) \<Rightarrow> (string \<rightharpoonup> quality) \<Rightarrow>
    (string \<times> item list) list \<Rightarrow> (string \<times> candidate list) list" where
  "channel_to_candidates url_to_host host_quality grouped =
     List.map_filter
       (\<lambda>(clean_name, items).
          (let candidates = channel_candidates url_to_host host_quality items
           in if candidates \<noteq> [] then Some (clean_name, candidates) else None))
       grouped"

text \<open>
  Every call of the confirmatory prober is logged: the channel, the URL and the
  answer. The confirmatory prober is a parameter \<open>T\<close>, as the prober is above.
\<close>

datatype check = Check (ck_channel: string) (ck_url: string) (ck_ok: bool)

type_synonym 'w tester = "string \<Rightarrow> 'w \<Rightarrow> bool \<times> 'w"

text \<open>
  \<^verbatim>\<open>
  selected = None
  for cand in candidates:
      if test_single_stream(cand["url"]):
          selected = {...}
          break
  \<close>
\<close>

fun first_working :: "'w tester \<Rightarrow> string \<Rightarrow> candidate list \<Rightarrow> 'w \<times> check list \<Rightarrow>
    candidate option \<times> ('w \<times> check list)" where
  "first_working T ch [] s = (None, s)"
| "first_working T ch (cand # rest) s =
     (case T (cand_url cand) (fst s) of
        (ok, w1) \<Rightarrow>
          (let s1 = (w1, snd s @ [Check ch (cand_url cand) ok])
           in if ok then (Some cand, s1) else first_working T ch rest s1))"

fun select_channel :: "'w tester \<Rightarrow> string \<times> candidate list \<Rightarrow>
    selected list \<times> ('w \<times> check list) \<Rightarrow> selected list \<times> ('w \<times> check list)" where
  "select_channel T (clean_name, candidates) (final_channels, s) =
     (case first_working T clean_name candidates s of
        (Some cand, s1) \<Rightarrow>
          (final_channels @ [\<lparr>sel_channel = clean_name, sel_original_name = cand_original_name cand,
                               sel_url = cand_url cand\<rparr>], s1)
      | (None, s1) \<Rightarrow> (final_channels, s1))"

definition build_final_playlist :: "'w tester \<Rightarrow> (string \<times> item list) list \<Rightarrow> (string \<rightharpoonup> string) \<Rightarrow>
    (string \<rightharpoonup> quality) \<Rightarrow> 'w \<Rightarrow> selected list \<times> ('w \<times> check list)" where
  "build_final_playlist T grouped url_to_host host_quality w =
     fold (select_channel T) (channel_to_candidates url_to_host host_quality grouped) ([], (w, []))"

text \<open>The confirmatory probes made for one channel, in the order of the log.\<close>

definition checks_of :: "string \<Rightarrow> check list \<Rightarrow> check list" where
  "checks_of ch tr = filter (\<lambda>c. ck_channel c = ch) tr"

subsection \<open>Example inputs\<close>

text \<open>
  What \<^verbatim>\<open>urlparse\<close> returns on five URLs: no port, a port, a port that is not a
  number (reading \<^verbatim>\<open>p.port\<close> raises), an unclosed bracket (\<^verbatim>\<open>urlparse\<close> itself
  raises), and any other string taken as one without an authority.
\<close>

definition urlparse_examples :: "string \<Rightarrow> exn + parse_result" where
  "urlparse_examples u =
     (if u = ''https://example.com/live/1.m3u8''
      then Inr \<lparr>scheme = ''https'', hostname = Some ''example.com'', port = Inr None\<rparr>
      else if u = ''http://example.com:8080/path''
      then Inr \<lparr>scheme = ''http'', hostname = Some ''example.com'', port = Inr (Some 8080)\<rparr>
      else if u = ''http://example.com:abc/x''
      then Inr \<lparr>scheme = ''http'', hostname = Some ''example.com'',
                 port = Inl (Exn ValueError ''Port could not be cast to integer value'')\<rparr>
      else if u = ''http://[::1/x''
      then Inl (Exn ValueError ''Invalid IPv6 URL'')
      else Inr \<lparr>scheme = [], hostname = None, port = Inr None\<rparr>)"

text \<open>
  An outside world for the examples: its state is a count of requests, the clock
  reads that count as seconds, HEAD and GET answer what they are given, whatever the
  URL. The bodies of the examples are ASCII: UTF-8 decodes each byte to the code point
  of the same number, and \<^verbatim>\<open>str.lower\<close> maps the letters A to Z to a to z. The
  availability checks of the external tools answer what they are given; \<^verbatim>\<open>ffprobe\<close>
  rejects every stream and the OCR check raises.
\<close>

definition ascii_lower :: "nat list \<Rightarrow> nat list" where
  "ascii_lower s = map (\<lambda>n. if 65 \<le> n \<and> n \<le> 90 then n + 32 else n) s"

definition ocr_failed :: exn where
  "ocr_failed = Exn OtherException ''[Errno 13] Permission denied: frame.jpg''"

definition tools_env :: "(exn + int) \<Rightarrow> (exn + response) \<Rightarrow> (exn + bool) \<Rightarrow> (exn + bool) \<Rightarrow> nat env" where
  "tools_env h g ffmpeg ocr =
     \<lparr>clock = real,
      requests_head = (\<lambda>u t w. (h, w + 1)),
      requests_get = (\<lambda>u t w. (g, w + 1)),
      decode_utf8 = codepoints,
      str_lower = ascii_lower,
      is_ffmpeg_available = (\<lambda>w. (ffmpeg, w + 1)),
      run_ffprobe = (\<lambda>u t w. (False, w + 1)),
      is_ocr_available = (\<lambda>w. (ocr, w + 1)),
      run_ocr_check = (\<lambda>u t w. (Inl ocr_failed, w + 1))\<rparr>"

definition example_env :: "(exn + int) \<Rightarrow> (exn + response) \<Rightarrow> nat env" where
  "example_env h g = tools_env h g (Inr False) (Inr False)"

definition playlist_body :: string where
  "playlist_body = ''#EXTM3U #EXTINF:-1,CCTV1 http://a.test/1.ts''"

definition prefixed_body :: string where
  "prefixed_body = ''channels #EXTM3U #EXTINF:-1,CCTV1 http://a.test/1.ts''"

definition html_body :: string where
  "html_body = ''<html>404 page</html>''"

definition ok_response :: "string \<Rightarrow> response" where
  "ok_response body = \<lparr>status_code = 200, chunks = [body], stream_error = None\<rparr>"

definition partial_content :: "string \<Rightarrow> response" where
  "partial_content body = \<lparr>status_code = 206, chunks = [body], stream_error = None\<rparr>"

definition partial_response :: "string \<Rightarrow> exn \<Rightarrow> response" where
  "partial_response body e = \<lparr>status_code = 200, chunks = [body], stream_error = Some e\<rparr>"

definition timed_out :: exn where
  "timed_out = Exn OtherException ''Read timed out.''"

definition refused :: exn where
  "refused = Exn OtherException ''Connection refused''"

definition no_ffmpeg :: exn where
  "no_ffmpeg = Exn OtherException ''[Errno 13] Permission denied: ffmpeg''"

text \<open>
  Vocabulary of the statements about the resolver: the entries of the final list for
  one channel, and "the endpoint that owns this URL has a record that is alive".
\<close>

definition selection_of :: "string \<Rightarrow> selected list \<Rightarrow> selected list" where
  "selection_of ch final_channels = filter (\<lambda>s. sel_channel s = ch) final_channels"

definition endpoint_alive :: "(string \<rightharpoonup> string) \<Rightarrow> (string \<rightharpoonup> quality) \<Rightarrow> string \<Rightarrow> bool" where
  "endpoint_alive url_to_host host_quality u =
     (case url_to_host u of
        None \<Rightarrow> False
      | Some h \<Rightarrow> (case host_quality h of None \<Rightarrow> False | Some q \<Rightarrow> q_alive q))"

text \<open>
  A confirmatory prober that passes the listed URLs, counting its calls, and a channel
  map in the way of the scenario of the specification: channel X with a candidate on
  a dead endpoint and two on alive endpoints of latencies 0.25 s and 0.1 s, and
  channel Y with its only candidate on the dead endpoint.
\<close>

definition tester_of :: "string list \<Rightarrow> nat tester" where
  "tester_of working u w = (u \<in> set working, Suc w)"

definition grouped_example :: "(string \<times> item list) list" where
  "grouped_example =
     [(''X'', [\<lparr>item_url = ''http://a.test/x'', item_original_name = ''X via a''\<rparr>,
               \<lparr>item_url = ''http://c.test/x'', item_original_name = ''X via c''\<rparr>,
               \<lparr>item_url = ''http://b.test/x'', item_original_name = ''X via b''\<rparr>]),
      (''Y'', [\<lparr>item_url = ''http://a.test/y'', item_original_name = ''Y via a''\<rparr>])]"

definition url_to_host_example :: "string \<rightharpoonup> string" where
  "url_to_host_example =
     map_of [(''http://a.test/x'', ''a.test:80''), (''http://b.test/x'', ''b.test:80''),
             (''http://c.test/x'', ''c.test:80''), (''http://a.test/y'', ''a.test:80'')]"

definition host_quality_example :: "string \<rightharpoonup> quality" where
  "host_quality_example =
     map_of [(''a.test:80'', \<lparr>q_alive = False, q_latency = 4 / 10, q_type = ''dead'',
                               representative_url = Some ''http://a.test/x'', trials = 2\<rparr>),
             (''b.test:80'', \<lparr>q_alive = True, q_latency = 1 / 10, q_type = ''hls'',
                               representative_url = Some ''http://b.test/x'', trials = 1\<rparr>),
             (''c.test:80'', \<lparr>q_alive = True, q_latency = 1 / 4, q_type = ''hls'',
                               representative_url = Some ''http://c.test/x'', trials = 1\<rparr>)]"

text \<open>
  What a log of calls is compared with: the answers of a prober called on the URLs of
  a list, one after the other, from a given state of the outside world, and the state
  after the last call.
\<close>

fun replay :: "(string \<Rightarrow> 'w \<Rightarrow> 'a \<times> 'w) \<Rightarrow> string list \<Rightarrow> 'w \<Rightarrow> 'a list \<times> 'w" where
  "replay f [] w = ([], w)"
| "replay f (u # us) w =
     (case f u w of (a, w1) \<Rightarrow> (case replay f us w1 of (as, w2) \<Rightarrow> (a # as, w2)))"

text \<open>
  A state of the tester, the outside world with the log of probes, is faithful to the
  prober \<open>P\<close> from the world \<open>w0\<close> when the verdicts in the log are those of \<open>P\<close> called
  on the logged URLs in the logged order from \<open>w0\<close>, and the world is the one these
  calls leave.
\<close>

definition faithful :: "'w prober \<Rightarrow> 'w \<Rightarrow> 'w \<times> event list \<Rightarrow> bool" where
  "faithful P w0 s = (replay P (map ev_url (snd s)) w0 = (map ev_verdict (snd s), fst s))"

text \<open>The probes made on behalf of one host, of both phases, in the order of the log.\<close>

definition events_of :: "string \<Rightarrow> event list \<Rightarrow> event list" where
  "events_of h tr = filter (\<lambda>e. ev_host e = h) tr"

text \<open>
  A prober for the examples: a URL answers from the moment given for it in a list
  (it is dead before, and a URL that is not in the list is always dead), the outside
  world is the number of probes made so far, and the latency of a probe is a tenth of
  that number, so that two probes never have the same verdict. Five endpoints: the
  representative of \<open>a\<close> is alive; \<open>b\<close> is alive at its second alternate; \<open>c\<close> has no
  alternate; the only alternate of \<open>d\<close> is dead; \<open>e\<close> has four alternates, all dead;
  \<open>f\<close> has no URL at all.
\<close>

definition scripted_prober :: "(string \<times> nat) list \<Rightarrow> nat prober" where
  "scripted_prober up u n =
     (let ok = list_ex (\<lambda>x. fst x = u \<and> snd x \<le> n) up
      in (\<lparr>alive = ok, latency = real n / 10, type = (if ok then ''hls'' else ''dead''),
           reason = (if ok then ''OK'' else ''GET 404'')\<rparr>, n + 1))"

definition up_example :: "(string \<times> nat) list" where
  "up_example = [(''http://a.test/1.m3u8'', 0), (''http://b.test/3'', 0)]"

definition hosts_example :: "(string \<times> string list) list" where
  "hosts_example =
     [(''a.test:80'', [''http://a.test/1.m3u8'']),
      (''b.test:80'', [''http://b.test/1.m3u8'', ''http://b.test/2'', ''http://b.test/3'']),
      (''c.test:80'', [''http://c.test/1.m3u8'']),
      (''d.test:80'', [''http://d.test/1.m3u8'', ''http://d.test/2'']),
      (''e.test:80'', [''http://e.test/1.m3u8'', ''http://e.test/2'', ''http://e.test/3'',
                       ''http://e.test/4'', ''http://e.test/5'']),
      (''f.test:80'', [])]"

definition dead :: "nat \<Rightarrow> verdict" where
  "dead n = \<lparr>alive = False, latency = real n / 10, type = ''dead'', reason = ''GET 404''\<rparr>"

definition live :: "nat \<Rightarrow> verdict" where
  "live n = \<lparr>alive = True, latency = real n / 10, type = ''hls'', reason = ''OK''\<rparr>"

(*FIXTURES*)

section \<open>Verification\<close>

subsection \<open>The Host Resolver\<close>

lemma str_nat_examples:
  "str_nat 80 = ''80''" "str_nat 443 = ''443''" "str_nat 8080 = ''8080''"
  by (simp_all add: str_nat.simps digit_char_def)

text \<open>
  Claim C9, as the code has it. \<^verbatim>\<open>get_host_key\<close> is a function of the URL and of what
  \<^verbatim>\<open>urlparse\<close> makes of it, and nothing else. It returns nothing exactly when
  \<^verbatim>\<open>urlparse\<close> raises, when reading the port raises, or when there is no host name
  (none, or an empty one). Otherwise it returns the host name, a colon and a port:
  443 for the scheme \<^verbatim>\<open>https\<close> and 80 for any other scheme when the URL has no port,
  and the URL's own port when it has one that is not zero.
\<close>

theorem get_host_key_result:
  "(get_host_key urlparse u = None \<longleftrightarrow>
      (\<exists>e. urlparse u = Inl e) \<or>
      (\<exists>p. urlparse u = Inr p \<and>
           ((\<exists>e. port p = Inl e) \<or> hostname p = None \<or> hostname p = Some []))) \<and>
   (\<forall>p h. urlparse u = Inr p \<and> hostname p = Some h \<and> h \<noteq> [] \<longrightarrow>
      (port p = Inr None \<longrightarrow>
         get_host_key urlparse u = Some (h @ '':'' @ str_nat (if scheme p = ''https'' then 443 else 80))) \<and>
      (\<forall>n. port p = Inr (Some n) \<and> n \<noteq> 0 \<longrightarrow>
         get_host_key urlparse u = Some (h @ '':'' @ str_nat n)))"
  by (auto simp: get_host_key_def default_port_def Let_def split: sum.splits option.splits)

theorem get_host_key_result_witness:
  "get_host_key urlparse_examples ''https://example.com/live/1.m3u8'' = Some ''example.com:443'' \<and>
   get_host_key urlparse_examples ''http://example.com:8080/path'' = Some ''example.com:8080'' \<and>
   get_host_key urlparse_examples ''http://[::1/x'' = None"
  using get_host_key_result [of urlparse_examples "''https://example.com/live/1.m3u8''"]
    get_host_key_result [of urlparse_examples "''http://example.com:8080/path''"]
    get_host_key_result [of urlparse_examples "''http://[::1/x''"]
  by (simp add: urlparse_examples_def str_nat_examples)

text \<open>
  The claim as written fails: \<^verbatim>\<open>http://example.com:abc/x\<close> has the host name
  \<^verbatim>\<open>example.com\<close>, reading its port raises \<^verbatim>\<open>ValueError\<close>, the handler returns
  \<^verbatim>\<open>None\<close>.
\<close>

theorem get_host_key_absent_with_hostname:
  "urlparse_examples ''http://example.com:abc/x'' =
     Inr \<lparr>scheme = ''http'', hostname = Some ''example.com'',
          port = Inl (Exn ValueError ''Port could not be cast to integer value'')\<rparr> \<and>
   get_host_key urlparse_examples ''http://example.com:abc/x'' = None"
  by (simp add: urlparse_examples_def get_host_key_def)

subsection \<open>Content classification\<close>









lemma example_bodies:
  "\<not> is_valid_hls_content (codepoints html_body)"
  "is_valid_hls_content (codepoints playlist_body)"
  "\<not> is_valid_hls_content (codepoints prefixed_body)"
  "contains (codepoints M3U_HEADER) (codepoints prefixed_body)"
  "contains (codepoints ''#EXTINF'') (codepoints prefixed_body)"
  "stream_type_of ascii_lower (codepoints playlist_body) = ''media''"
  by (simp_all add: is_valid_hls_content_def html_body_def playlist_body_def prefixed_body_def
      strip_def isspace_def startswith_def M3U_HEADER_def codepoints_def stream_type_of_def
      ascii_lower_def)

text \<open>
  The probe, step by step: from the HEAD pre-check that lets it through to the GET,
  from the answer 200 and the prefix read to the classification.
\<close>

lemma hls_try_passed:
  assumes "requests_head env u (timeout div 2) w = (h, w1)"
    and "\<forall>sc. h = Inr sc \<longrightarrow> sc \<in> set [HTTP_OK, 206, 301, 302]"
  shows "hls_try env u timeout start w = hls_get env u timeout start w1"
  using assms by (cases h) (auto simp: hls_try_def)

lemma hls_get_fetched:
  assumes "requests_get env u timeout w1 = (Inr r, w2)"
    and "status_code r = HTTP_OK"
    and "read_chunks [] (chunks r) (stream_error r) = Inr content"
  shows "hls_get env u timeout start w1 = hls_classify env u start content w2"
  using assms by (simp add: hls_get_def)

lemma hls_stream_cases:
  "is_valid_hls_stream env u timeout w =
     (case hls_try env u timeout (clock env w) w of
        (Inl e, w1) \<Rightarrow>
          (Inr \<lparr>alive = False, latency = clock env w1 - clock env w, type = ''error'', reason = str_exn e\<rparr>, w1)
      | (Inr v, w1) \<Rightarrow> (Inr v, w1))"
  by (simp add: is_valid_hls_stream_def Let_def)

lemma hls_stream_fetched:
  assumes "requests_head env u (timeout div 2) w = (h, w1)"
    and "\<forall>sc. h = Inr sc \<longrightarrow> sc \<in> set [HTTP_OK, 206, 301, 302]"
    and "requests_get env u timeout w1 = (Inr r, w2)"
    and "status_code r = HTTP_OK"
    and "read_chunks [] (chunks r) (stream_error r) = Inr content"
  shows "is_valid_hls_stream env u timeout w =
     (case hls_classify env u (clock env w) content w2 of
        (Inl e, w3) \<Rightarrow>
          (Inr \<lparr>alive = False, latency = clock env w3 - clock env w, type = ''error'', reason = str_exn e\<rparr>, w3)
      | (Inr v, w3) \<Rightarrow> (Inr v, w3))"
  unfolding hls_stream_cases hls_try_passed [OF assms(1,2)] hls_get_fetched [OF assms(3-5)] ..



lemma hls_classify_extension:
  "is_valid_hls_content (decode_utf8 env content) \<Longrightarrow> endswith_any u HLS_EXTENSIONS \<Longrightarrow>
   hls_classify env u start content w =
     (Inr \<lparr>alive = True, latency = clock env w - start,
           type = stream_type_of (str_lower env) (decode_utf8 env content), reason = ''OK''\<rparr>, w)"
  by (simp add: hls_classify_def Let_def)



lemma hls_classify_ffmpeg_raises:
  "is_valid_hls_content (decode_utf8 env content) \<Longrightarrow> \<not> endswith_any u HLS_EXTENSIONS \<Longrightarrow>
   is_ffmpeg_available env w = (Inl e, w1) \<Longrightarrow>
   hls_classify env u start content w = (Inl e, w1)"
  by (simp add: hls_classify_def Let_def)

lemma stream_type_of_not_hls: "stream_type_of low text \<noteq> ''not_hls''"
  by (simp add: stream_type_of_def)





lemma example_requests:
  "requests_head (tools_env (Inr 200) g ff ocr) u (8 div 2) 0 = (Inr 200, 1) \<and>
   (\<forall>sc. (Inr 200 :: exn + int) = Inr sc \<longrightarrow> sc \<in> set [HTTP_OK, 206, 301, 302]) \<and>
   requests_get (tools_env (Inr 200) g ff ocr) u 8 1 = (g, 2)"
  "requests_head (tools_env (Inl e) g ff ocr) u (8 div 2) 0 = (Inl e, 1) \<and>
   (\<forall>sc. (Inl e :: exn + int) = Inr sc \<longrightarrow> sc \<in> set [HTTP_OK, 206, 301, 302]) \<and>
   requests_get (tools_env (Inl e) g ff ocr) u 8 1 = (g, 2)"
  by (simp_all add: tools_env_def HTTP_OK_def)

lemma example_reads:
  "status_code (ok_response body) = HTTP_OK"
  "length body \<le> 2048 \<Longrightarrow>
     read_chunks [] (chunks (ok_response body)) (stream_error (ok_response body)) = Inr body"
  "status_code (partial_response body e) = HTTP_OK"
  "length body \<le> 2048 \<Longrightarrow>
     read_chunks [] (chunks (partial_response body e)) (stream_error (partial_response body e)) = Inl e"
  "status_code (partial_content body) \<noteq> HTTP_OK"
  "str_int (status_code (partial_content body)) = ''206''"
  by (simp_all add: ok_response_def partial_response_def partial_content_def HTTP_OK_def
      str_int_def str_nat.simps digit_char_def)

lemma example_urls:
  "endswith_any ''http://a.test/live.m3u8'' HLS_EXTENSIONS"
  "\<not> endswith_any ''http://a.test/live'' HLS_EXTENSIONS"
  by (simp_all add: endswith_any_def endswith_def HLS_EXTENSIONS_def)

lemma example_lengths:
  "length html_body \<le> 2048" "length playlist_body \<le> 2048" "length prefixed_body \<le> 2048"
  by (simp_all add: html_body_def playlist_body_def prefixed_body_def)

lemma example_clock:
  "clock (tools_env h g ff ocr) w = real w" "decode_utf8 (tools_env h g ff ocr) = codepoints"
  "str_lower (tools_env h g ff ocr) = ascii_lower"
  "is_ffmpeg_available (tools_env h g ff ocr) w = (ff, w + 1)"
  "run_ffprobe (tools_env h g ff ocr) u t w = (False, w + 1)"
  "is_ocr_available (tools_env h g ff ocr) w = (ocr, w + 1)"
  "run_ocr_check (tools_env h g ff ocr) u t w = (Inl ocr_failed, w + 1)"
  by (simp_all add: tools_env_def)



subsection \<open>The probers and exceptions\<close>

lemma single_stream_cases:
  "test_single_stream env u timeout w =
     (case single_try env u timeout w of
        (Inl e, w1) \<Rightarrow> (Inr False, w1)
      | (Inr b, w1) \<Rightarrow> (Inr b, w1))"
  by (simp add: test_single_stream_def)

text \<open>
  Claim C5, as the code has it. Neither prober raises: each returns a value, whatever
  the outside world does. In \<^verbatim>\<open>is_valid_hls_stream\<close>, once the HEAD pre-check has let
  the probe through (it raised, or answered 200, 206, 301 or 302), an exception of the
  GET, of reading the body, or of the availability check of \<^verbatim>\<open>ffprobe\<close> (made for a
  valid manifest at a URL that does not end with \<^verbatim>\<open>.m3u8\<close> or \<^verbatim>\<open>.m3u\<close>) is returned as
  the verdict \<^verbatim>\<open>alive=False\<close> with the type \<^verbatim>\<open>error\<close>, the exception's message as the
  reason, and the time until the exception as the latency. An exception of the HEAD
  request itself is dropped: the probe goes on to the GET, and a valid manifest is
  reported alive. Decoding cannot raise (\<^verbatim>\<open>errors='ignore'\<close>), and \<^verbatim>\<open>run_ffprobe\<close>
  returns a Boolean whatever happens.

  In \<^verbatim>\<open>test_single_stream\<close>, an exception of the GET, of reading the body, of the
  availability check of the OCR tools or of the OCR check is returned as the Boolean
  \<^verbatim>\<open>False\<close>: there is no reason in the result.
\<close>

theorem probers_never_raise:
  "(\<exists>v. fst (is_valid_hls_stream env u timeout w) = Inr v) \<and>
   (\<exists>b. fst (test_single_stream env u timeout w) = Inr b) \<and>
   (\<forall>h w1 e w2.
      requests_head env u (timeout div 2) w = (h, w1) \<and>
      (\<forall>sc. h = Inr sc \<longrightarrow> sc \<in> set [HTTP_OK, 206, 301, 302]) \<and>
      requests_get env u timeout w1 = (Inl e, w2) \<longrightarrow>
      is_valid_hls_stream env u timeout w =
        (Inr \<lparr>alive = False, latency = clock env w2 - clock env w, type = ''error'', reason = str_exn e\<rparr>, w2)) \<and>
   (\<forall>h w1 r w2 e.
      requests_head env u (timeout div 2) w = (h, w1) \<and>
      (\<forall>sc. h = Inr sc \<longrightarrow> sc \<in> set [HTTP_OK, 206, 301, 302]) \<and>
      requests_get env u timeout w1 = (Inr r, w2) \<and> status_code r = HTTP_OK \<and>
      read_chunks [] (chunks r) (stream_error r) = Inl e \<longrightarrow>
      is_valid_hls_stream env u timeout w =
        (Inr \<lparr>alive = False, latency = clock env w2 - clock env w, type = ''error'', reason = str_exn e\<rparr>, w2)) \<and>
   (\<forall>h w1 r w2 content e w3.
      requests_head env u (timeout div 2) w = (h, w1) \<and>
      (\<forall>sc. h = Inr sc \<longrightarrow> sc \<in> set [HTTP_OK, 206, 301, 302]) \<and>
      requests_get env u timeout w1 = (Inr r, w2) \<and> status_code r = HTTP_OK \<and>
      read_chunks [] (chunks r) (stream_error r) = Inr content \<and>
      is_valid_hls_content (decode_utf8 env content) \<and> \<not> endswith_any u HLS_EXTENSIONS \<and>
      is_ffmpeg_available env w2 = (Inl e, w3) \<longrightarrow>
      is_valid_hls_stream env u timeout w =
        (Inr \<lparr>alive = False, latency = clock env w3 - clock env w, type = ''error'', reason = str_exn e\<rparr>, w3)) \<and>
   (\<forall>e w1 r w2 content.
      requests_head env u (timeout div 2) w = (Inl e, w1) \<and>
      requests_get env u timeout w1 = (Inr r, w2) \<and> status_code r = HTTP_OK \<and>
      read_chunks [] (chunks r) (stream_error r) = Inr content \<and>
      is_valid_hls_content (decode_utf8 env content) \<and> endswith_any u HLS_EXTENSIONS \<longrightarrow>
      is_valid_hls_stream env u timeout w =
        (Inr \<lparr>alive = True, latency = clock env w2 - clock env w,
              type = stream_type_of (str_lower env) (decode_utf8 env content), reason = ''OK''\<rparr>, w2)) \<and>
   (\<forall>e w1. requests_get env u timeout w = (Inl e, w1) \<longrightarrow>
      test_single_stream env u timeout w = (Inr False, w1)) \<and>
   (\<forall>r w1 e.
      requests_get env u timeout w = (Inr r, w1) \<and> status_code r = HTTP_OK \<and>
      read_chunks [] (chunks r) (stream_error r) = Inl e \<longrightarrow>
      test_single_stream env u timeout w = (Inr False, w1)) \<and>
   (\<forall>r w1 content e w2.
      requests_get env u timeout w = (Inr r, w1) \<and> status_code r = HTTP_OK \<and>
      read_chunks [] (chunks r) (stream_error r) = Inr content \<and>
      is_valid_hls_content (decode_utf8 env content) \<and> \<not> endswith_any u HLS_EXTENSIONS \<and>
      is_ocr_available env w1 = (Inl e, w2) \<longrightarrow>
      test_single_stream env u timeout w = (Inr False, w2)) \<and>
   (\<forall>r w1 content w2 e w3.
      requests_get env u timeout w = (Inr r, w1) \<and> status_code r = HTTP_OK \<and>
      read_chunks [] (chunks r) (stream_error r) = Inr content \<and>
      is_valid_hls_content (decode_utf8 env content) \<and> \<not> endswith_any u HLS_EXTENSIONS \<and>
      is_ocr_available env w1 = (Inr True, w2) \<and> run_ocr_check env u 15 w2 = (Inl e, w3) \<longrightarrow>
      test_single_stream env u timeout w = (Inr False, w3))"
proof (intro conjI allI impI)
  show "\<exists>v. fst (is_valid_hls_stream env u timeout w) = Inr v"
    by (auto simp: hls_stream_cases split: prod.splits sum.splits)
  show "\<exists>b. fst (test_single_stream env u timeout w) = Inr b"
    by (auto simp: single_stream_cases split: prod.splits sum.splits)
next
  fix h w1 e w2
  assume a: "requests_head env u (timeout div 2) w = (h, w1) \<and>
      (\<forall>sc. h = Inr sc \<longrightarrow> sc \<in> set [HTTP_OK, 206, 301, 302]) \<and>
      requests_get env u timeout w1 = (Inl e, w2)"
  from a have hd: "requests_head env u (timeout div 2) w = (h, w1)" by (rule conjunct1)
  from a have ps: "\<forall>sc. h = Inr sc \<longrightarrow> sc \<in> set [HTTP_OK, 206, 301, 302]" by blast
  from a have gt: "requests_get env u timeout w1 = (Inl e, w2)" by blast
  show "is_valid_hls_stream env u timeout w =
        (Inr \<lparr>alive = False, latency = clock env w2 - clock env w, type = ''error'', reason = str_exn e\<rparr>, w2)"
    unfolding hls_stream_cases hls_try_passed [OF hd ps] using gt by (simp add: hls_get_def)
next
  fix h w1 r w2 e
  assume a: "requests_head env u (timeout div 2) w = (h, w1) \<and>
      (\<forall>sc. h = Inr sc \<longrightarrow> sc \<in> set [HTTP_OK, 206, 301, 302]) \<and>
      requests_get env u timeout w1 = (Inr r, w2) \<and> status_code r = HTTP_OK \<and>
      read_chunks [] (chunks r) (stream_error r) = Inl e"
  from a have hd: "requests_head env u (timeout div 2) w = (h, w1)" by (rule conjunct1)
  from a have ps: "\<forall>sc. h = Inr sc \<longrightarrow> sc \<in> set [HTTP_OK, 206, 301, 302]" by blast
  from a have gt: "requests_get env u timeout w1 = (Inr r, w2)" "status_code r = HTTP_OK"
      "read_chunks [] (chunks r) (stream_error r) = Inl e" by blast+
  show "is_valid_hls_stream env u timeout w =
        (Inr \<lparr>alive = False, latency = clock env w2 - clock env w, type = ''error'', reason = str_exn e\<rparr>, w2)"
    unfolding hls_stream_cases hls_try_passed [OF hd ps] using gt by (simp add: hls_get_def)
next
  fix h w1 r w2 content e w3
  assume a: "requests_head env u (timeout div 2) w = (h, w1) \<and>
      (\<forall>sc. h = Inr sc \<longrightarrow> sc \<in> set [HTTP_OK, 206, 301, 302]) \<and>
      requests_get env u timeout w1 = (Inr r, w2) \<and> status_code r = HTTP_OK \<and>
      read_chunks [] (chunks r) (stream_error r) = Inr content \<and>
      is_valid_hls_content (decode_utf8 env content) \<and> \<not> endswith_any u HLS_EXTENSIONS \<and>
      is_ffmpeg_available env w2 = (Inl e, w3)"
  from a have hd: "requests_head env u (timeout div 2) w = (h, w1)" by (rule conjunct1)
  from a have ps: "\<forall>sc. h = Inr sc \<longrightarrow> sc \<in> set [HTTP_OK, 206, 301, 302]" by blast
  from a have gt: "requests_get env u timeout w1 = (Inr r, w2)" and ok: "status_code r = HTTP_OK"
    and rd: "read_chunks [] (chunks r) (stream_error r) = Inr content" by blast+
  from a have "is_valid_hls_content (decode_utf8 env content)" and "\<not> endswith_any u HLS_EXTENSIONS"
    and "is_ffmpeg_available env w2 = (Inl e, w3)" by blast+
  from hls_classify_ffmpeg_raises [OF this]
  show "is_valid_hls_stream env u timeout w =
        (Inr \<lparr>alive = False, latency = clock env w3 - clock env w, type = ''error'', reason = str_exn e\<rparr>, w3)"
    unfolding hls_stream_fetched [OF hd ps gt ok rd] by simp
next
  fix e w1 r w2 content
  assume a: "requests_head env u (timeout div 2) w = (Inl e, w1) \<and>
      requests_get env u timeout w1 = (Inr r, w2) \<and> status_code r = HTTP_OK \<and>
      read_chunks [] (chunks r) (stream_error r) = Inr content \<and>
      is_valid_hls_content (decode_utf8 env content) \<and> endswith_any u HLS_EXTENSIONS"
  from a have hd: "requests_head env u (timeout div 2) w = (Inl e, w1)" by (rule conjunct1)
  have ps: "\<forall>sc. (Inl e :: exn + int) = Inr sc \<longrightarrow> sc \<in> set [HTTP_OK, 206, 301, 302]" by simp
  from a have gt: "requests_get env u timeout w1 = (Inr r, w2)" and ok: "status_code r = HTTP_OK"
    and rd: "read_chunks [] (chunks r) (stream_error r) = Inr content" by blast+
  from a have "is_valid_hls_content (decode_utf8 env content)" and "endswith_any u HLS_EXTENSIONS"
    by blast+
  from hls_classify_extension [OF this]
  show "is_valid_hls_stream env u timeout w =
        (Inr \<lparr>alive = True, latency = clock env w2 - clock env w,
              type = stream_type_of (str_lower env) (decode_utf8 env content), reason = ''OK''\<rparr>, w2)"
    unfolding hls_stream_fetched [OF hd ps gt ok rd] by simp
next
  fix e w1
  assume "requests_get env u timeout w = (Inl e, w1)"
  then show "test_single_stream env u timeout w = (Inr False, w1)"
    by (simp add: single_stream_cases single_try_def)
next
  fix r w1 e
  assume "requests_get env u timeout w = (Inr r, w1) \<and> status_code r = HTTP_OK \<and>
      read_chunks [] (chunks r) (stream_error r) = Inl e"
  then show "test_single_stream env u timeout w = (Inr False, w1)"
    by (simp add: single_stream_cases single_try_def)
next
  fix r w1 content e w2
  assume "requests_get env u timeout w = (Inr r, w1) \<and> status_code r = HTTP_OK \<and>
      read_chunks [] (chunks r) (stream_error r) = Inr content \<and>
      is_valid_hls_content (decode_utf8 env content) \<and> \<not> endswith_any u HLS_EXTENSIONS \<and>
      is_ocr_available env w1 = (Inl e, w2)"
  then show "test_single_stream env u timeout w = (Inr False, w2)"
    by (simp add: single_stream_cases single_try_def)
next
  fix r w1 content w2 e w3
  assume "requests_get env u timeout w = (Inr r, w1) \<and> status_code r = HTTP_OK \<and>
      read_chunks [] (chunks r) (stream_error r) = Inr content \<and>
      is_valid_hls_content (decode_utf8 env content) \<and> \<not> endswith_any u HLS_EXTENSIONS \<and>
      is_ocr_available env w1 = (Inr True, w2) \<and> run_ocr_check env u 15 w2 = (Inl e, w3)"
  then show "test_single_stream env u timeout w = (Inr False, w3)"
    by (simp add: single_stream_cases single_try_def)
qed

lemma example_get:
  "requests_get (tools_env h g ff ocr) u t w = (g, w + 1)"
  "requests_head (tools_env h g ff ocr) u t w = (h, w + 1)"
  by (simp_all add: tools_env_def)

theorem probers_never_raise_witness:
  "is_valid_hls_stream (example_env (Inr 200) (Inl timed_out)) ''http://a.test/live.m3u8'' 8 0 =
     (Inr \<lparr>alive = False, latency = 2, type = ''error'', reason = ''Read timed out.''\<rparr>, 2) \<and>
   is_valid_hls_stream (example_env (Inr 200) (Inr (partial_response playlist_body timed_out)))
       ''http://a.test/live.m3u8'' 8 0 =
     (Inr \<lparr>alive = False, latency = 2, type = ''error'', reason = ''Read timed out.''\<rparr>, 2) \<and>
   is_valid_hls_stream (tools_env (Inr 200) (Inr (ok_response playlist_body)) (Inl no_ffmpeg) (Inr False))
       ''http://a.test/live'' 8 0 =
     (Inr \<lparr>alive = False, latency = 3, type = ''error'',
           reason = ''[Errno 13] Permission denied: ffmpeg''\<rparr>, 3) \<and>
   is_valid_hls_stream (example_env (Inl timed_out) (Inr (ok_response playlist_body)))
       ''http://a.test/live.m3u8'' 8 0 =
     (Inr \<lparr>alive = True, latency = 2, type = ''media'', reason = ''OK''\<rparr>, 2) \<and>
   test_single_stream (example_env (Inr 200) (Inl timed_out)) ''http://a.test/live.m3u8'' 8 0 =
     (Inr False, 1) \<and>
   test_single_stream (example_env (Inr 200) (Inr (partial_response playlist_body timed_out)))
       ''http://a.test/live.m3u8'' 8 0 = (Inr False, 1) \<and>
   test_single_stream (tools_env (Inr 200) (Inr (ok_response playlist_body)) (Inr False) (Inl no_ffmpeg))
       ''http://a.test/live'' 8 0 = (Inr False, 2) \<and>
   test_single_stream (tools_env (Inr 200) (Inr (ok_response playlist_body)) (Inr False) (Inr True))
       ''http://a.test/live'' 8 0 = (Inr False, 3)"
proof -
  let ?u = "''http://a.test/live.m3u8''"
  let ?v = "''http://a.test/live''"
  let ?e1 = "tools_env (Inr 200) (Inl timed_out) (Inr False) (Inr False)"
  let ?e2 = "tools_env (Inr 200) (Inr (partial_response playlist_body timed_out)) (Inr False) (Inr False)"
  let ?e3 = "tools_env (Inr 200) (Inr (ok_response playlist_body)) (Inl no_ffmpeg) (Inr False)"
  let ?e4 = "tools_env (Inl timed_out) (Inr (ok_response playlist_body)) (Inr False) (Inr False)"
  let ?e5 = "tools_env (Inr 200) (Inr (ok_response playlist_body)) (Inr False) (Inl no_ffmpeg)"
  let ?e6 = "tools_env (Inr 200) (Inr (ok_response playlist_body)) (Inr False) (Inr True)"
  note rd = example_reads(2) [OF example_lengths(2)]
  note rp = example_reads(4) [OF example_lengths(2)]
  from probers_never_raise [of ?e1 ?u 8 0, THEN conjunct2, THEN conjunct2, THEN conjunct1,
      rule_format, OF example_requests(1)]
  have a: "is_valid_hls_stream ?e1 ?u 8 0 =
     (Inr \<lparr>alive = False, latency = 2, type = ''error'', reason = ''Read timed out.''\<rparr>, 2)"
    by (simp add: example_clock timed_out_def)
  have "requests_head ?e2 ?u (8 div 2) 0 = (Inr 200, 1) \<and>
      (\<forall>sc. (Inr 200 :: exn + int) = Inr sc \<longrightarrow> sc \<in> set [HTTP_OK, 206, 301, 302]) \<and>
      requests_get ?e2 ?u 8 1 = (Inr (partial_response playlist_body timed_out), 2) \<and>
      status_code (partial_response playlist_body timed_out) = HTTP_OK \<and>
      read_chunks [] (chunks (partial_response playlist_body timed_out))
        (stream_error (partial_response playlist_body timed_out)) = Inl timed_out"
    using rp by (simp add: example_get example_reads(3) HTTP_OK_def)
  from probers_never_raise [of ?e2 ?u 8 0, THEN conjunct2, THEN conjunct2, THEN conjunct2,
      THEN conjunct1, rule_format, OF this]
  have b: "is_valid_hls_stream ?e2 ?u 8 0 =
     (Inr \<lparr>alive = False, latency = 2, type = ''error'', reason = ''Read timed out.''\<rparr>, 2)"
    by (simp add: example_clock timed_out_def)
  have "requests_head ?e3 ?v (8 div 2) 0 = (Inr 200, 1) \<and>
      (\<forall>sc. (Inr 200 :: exn + int) = Inr sc \<longrightarrow> sc \<in> set [HTTP_OK, 206, 301, 302]) \<and>
      requests_get ?e3 ?v 8 1 = (Inr (ok_response playlist_body), 2) \<and>
      status_code (ok_response playlist_body) = HTTP_OK \<and>
      read_chunks [] (chunks (ok_response playlist_body)) (stream_error (ok_response playlist_body)) =
        Inr playlist_body \<and>
      is_valid_hls_content (decode_utf8 ?e3 playlist_body) \<and> \<not> endswith_any ?v HLS_EXTENSIONS \<and>
      is_ffmpeg_available ?e3 2 = (Inl no_ffmpeg, 3)"
    using rd
    by (simp add: example_get example_reads(1) example_clock example_bodies(2) example_urls(2) HTTP_OK_def)
  from probers_never_raise [of ?e3 ?v 8 0, THEN conjunct2, THEN conjunct2, THEN conjunct2,
      THEN conjunct2, THEN conjunct1, rule_format, OF this]
  have c: "is_valid_hls_stream ?e3 ?v 8 0 =
     (Inr \<lparr>alive = False, latency = 3, type = ''error'',
           reason = ''[Errno 13] Permission denied: ffmpeg''\<rparr>, 3)"
    by (simp add: example_clock no_ffmpeg_def)
  have "requests_head ?e4 ?u (8 div 2) 0 = (Inl timed_out, 1) \<and>
      requests_get ?e4 ?u 8 1 = (Inr (ok_response playlist_body), 2) \<and>
      status_code (ok_response playlist_body) = HTTP_OK \<and>
      read_chunks [] (chunks (ok_response playlist_body)) (stream_error (ok_response playlist_body)) =
        Inr playlist_body \<and>
      is_valid_hls_content (decode_utf8 ?e4 playlist_body) \<and> endswith_any ?u HLS_EXTENSIONS"
    using rd
    by (simp add: example_get example_reads(1) example_clock example_bodies(2) example_urls(1) HTTP_OK_def)
  from probers_never_raise [of ?e4 ?u 8 0, THEN conjunct2, THEN conjunct2, THEN conjunct2,
      THEN conjunct2, THEN conjunct2, THEN conjunct1, rule_format, OF this]
  have d: "is_valid_hls_stream ?e4 ?u 8 0 =
     (Inr \<lparr>alive = True, latency = 2, type = ''media'', reason = ''OK''\<rparr>, 2)"
    by (simp add: example_clock example_bodies(6))
  have "requests_get ?e1 ?u 8 0 = (Inl timed_out, 1)" by (simp add: example_get)
  from probers_never_raise [of ?e1 ?u 8 0, THEN conjunct2, THEN conjunct2, THEN conjunct2,
      THEN conjunct2, THEN conjunct2, THEN conjunct2, THEN conjunct1, rule_format, OF this]
  have e: "test_single_stream ?e1 ?u 8 0 = (Inr False, 1)" .
  have "requests_get ?e2 ?u 8 0 = (Inr (partial_response playlist_body timed_out), 1) \<and>
      status_code (partial_response playlist_body timed_out) = HTTP_OK \<and>
      read_chunks [] (chunks (partial_response playlist_body timed_out))
        (stream_error (partial_response playlist_body timed_out)) = Inl timed_out"
    using rp by (simp add: example_get example_reads(3))
  from probers_never_raise [of ?e2 ?u 8 0, THEN conjunct2, THEN conjunct2, THEN conjunct2,
      THEN conjunct2, THEN conjunct2, THEN conjunct2, THEN conjunct2, THEN conjunct1, rule_format, OF this]
  have f: "test_single_stream ?e2 ?u 8 0 = (Inr False, 1)" .
  have "requests_get ?e5 ?v 8 0 = (Inr (ok_response playlist_body), 1) \<and>
      status_code (ok_response playlist_body) = HTTP_OK \<and>
      read_chunks [] (chunks (ok_response playlist_body)) (stream_error (ok_response playlist_body)) =
        Inr playlist_body \<and>
      is_valid_hls_content (decode_utf8 ?e5 playlist_body) \<and> \<not> endswith_any ?v HLS_EXTENSIONS \<and>
      is_ocr_available ?e5 1 = (Inl no_ffmpeg, 2)"
    using rd by (simp add: example_get example_reads(1) example_clock example_bodies(2) example_urls(2))
  from probers_never_raise [of ?e5 ?v 8 0, THEN conjunct2, THEN conjunct2, THEN conjunct2,
      THEN conjunct2, THEN conjunct2, THEN conjunct2, THEN conjunct2, THEN conjunct2, THEN conjunct1,
      rule_format, OF this]
  have g: "test_single_stream ?e5 ?v 8 0 = (Inr False, 2)" .
  have "requests_get ?e6 ?v 8 0 = (Inr (ok_response playlist_body), 1) \<and>
      status_code (ok_response playlist_body) = HTTP_OK \<and>
      read_chunks [] (chunks (ok_response playlist_body)) (stream_error (ok_response playlist_body)) =
        Inr playlist_body \<and>
      is_valid_hls_content (decode_utf8 ?e6 playlist_body) \<and> \<not> endswith_any ?v HLS_EXTENSIONS \<and>
      is_ocr_available ?e6 1 = (Inr True, 2) \<and> run_ocr_check ?e6 ?v 15 2 = (Inl ocr_failed, 3)"
    using rd by (simp add: example_get example_reads(1) example_clock example_bodies(2) example_urls(2))
  from probers_never_raise [of ?e6 ?v 8 0, THEN conjunct2, THEN conjunct2, THEN conjunct2,
      THEN conjunct2, THEN conjunct2, THEN conjunct2, THEN conjunct2, THEN conjunct2, THEN conjunct2,
      rule_format, OF this]
  have h: "test_single_stream ?e6 ?v 8 0 = (Inr False, 3)" .
  from a b c d e f g h show ?thesis
    unfolding example_env_def by blast
qed

text \<open>
  The claim as written fails for \<^verbatim>\<open>test_single_stream\<close>: a GET that times out and a GET
  that is refused give the same result, the Boolean \<^verbatim>\<open>False\<close>, with nothing that
  describes the failure, where \<^verbatim>\<open>is_valid_hls_stream\<close> returns the message of each.
\<close>

theorem single_stream_failure_has_no_reason:
  "str_exn timed_out \<noteq> str_exn refused \<and>
   test_single_stream (example_env (Inr 200) (Inl timed_out)) ''http://a.test/live.m3u8'' 8 0 =
     (Inr False, 1) \<and>
   test_single_stream (example_env (Inr 200) (Inl refused)) ''http://a.test/live.m3u8'' 8 0 =
     (Inr False, 1) \<and>
   is_valid_hls_stream (example_env (Inr 200) (Inl timed_out)) ''http://a.test/live.m3u8'' 8 0 =
     (Inr \<lparr>alive = False, latency = 2, type = ''error'', reason = ''Read timed out.''\<rparr>, 2) \<and>
   is_valid_hls_stream (example_env (Inr 200) (Inl refused)) ''http://a.test/live.m3u8'' 8 0 =
     (Inr \<lparr>alive = False, latency = 2, type = ''error'', reason = ''Connection refused''\<rparr>, 2)"
  by (simp add: is_valid_hls_stream_def hls_try_def hls_get_def Let_def
      example_env_def tools_env_def HTTP_OK_def test_single_stream_def single_try_def
      timed_out_def refused_def)

subsection \<open>Loops over a dictionary, seen from one key\<close>

text \<open>
  A loop over the items of a dictionary changes what can be observed about one key
  only in the iteration of that key, when every other iteration leaves the
  observation alone.
\<close>

lemma fold_key_none:
  assumes "filter (\<lambda>e. fst e = h) xs = []"
    and "\<And>e s. fst e \<noteq> h \<Longrightarrow> obs (f e s) = obs s"
  shows "obs (fold f xs s) = obs s"
  using assms(1)
proof (induction xs arbitrary: s)
  case Nil
  then show ?case by simp
next
  case (Cons x xs)
  then have "fst x \<noteq> h" and "filter (\<lambda>e. fst e = h) xs = []"
    by (auto split: if_splits)
  then show ?case using Cons.IH assms(2) by simp
qed

lemma fold_key_one:
  assumes "filter (\<lambda>e. fst e = h) xs = [x]"
    and "\<And>e s. fst e \<noteq> h \<Longrightarrow> obs (f e s) = obs s"
  shows "\<exists>s1. obs s1 = obs s \<and> obs (fold f xs s) = obs (f x s1)"
  using assms(1)
proof (induction xs arbitrary: s)
  case Nil
  then show ?case by simp
next
  case (Cons y ys)
  show ?case
  proof (cases "fst y = h")
    case True
    with Cons.prems have "y = x" and "filter (\<lambda>e. fst e = h) ys = []" by auto
    then have "obs (fold f (y # ys) s) = obs (f x s)"
      using fold_key_none [of h ys obs f "f x s"] assms(2) by simp
    then show ?thesis by blast
  next
    case False
    with Cons.prems have "filter (\<lambda>e. fst e = h) ys = [x]" by simp
    from Cons.IH [OF this, of "f y s"] obtain s1
      where "obs s1 = obs (f y s)" and "obs (fold f ys (f y s)) = obs (f x s1)" by blast
    with False assms(2) show ?thesis by (auto intro!: exI [of _ s1])
  qed
qed

lemma filter_key_distinct:
  "distinct (map fst xs) \<Longrightarrow> (h, d) \<in> set xs \<Longrightarrow> filter (\<lambda>e. fst e = h) xs = [(h, d)]"
proof (induction xs)
  case Nil
  then show ?case by simp
next
  case (Cons y ys)
  show ?case
  proof (cases "y = (h, d)")
    case True
    with Cons.prems have "h \<notin> fst ` set ys" by auto
    then have "filter (\<lambda>e. fst e = h) ys = []" by (auto simp: filter_empty_conv)
    with True show ?thesis by simp
  next
    case False
    with Cons.prems have "(h, d) \<in> set ys" "distinct (map fst ys)" by auto
    moreover from this Cons.prems have "fst y \<noteq> h" by (auto simp: image_iff)
    ultimately show ?thesis using Cons.IH by simp
  qed
qed

subsection \<open>The Channel Candidate Resolver\<close>

lemma first_working_spec:
  "first_working T ch cs s = (r, s1) \<Longrightarrow>
   \<exists>new. snd s1 = snd s @ new \<and> (\<forall>c\<in>set new. ck_channel c = ch) \<and>
     map ck_url new = map cand_url (take (length new) cs) \<and> length new \<le> length cs \<and>
     (\<forall>c\<in>set (butlast new). \<not> ck_ok c) \<and>
     (case r of
        None \<Rightarrow> length new = length cs \<and> (\<forall>c\<in>set new. \<not> ck_ok c)
      | Some cand \<Rightarrow> new \<noteq> [] \<and> ck_ok (last new) \<and> cand = cs ! (length new - 1))"
proof (induction cs arbitrary: s)
  case Nil
  then show ?case by auto
next
  case (Cons cand rest)
  obtain ok w1 where T: "T (cand_url cand) (fst s) = (ok, w1)" by (cases "T (cand_url cand) (fst s)")
  define e where "e = Check ch (cand_url cand) ok"
  show ?case
  proof (cases ok)
    case True
    with Cons.prems T have "r = Some cand" "snd s1 = snd s @ [e]"
      by (auto simp: e_def)
    with True show ?thesis by (intro exI [of _ "[e]"]) (simp add: e_def)
  next
    case False
    with Cons.prems T have "first_working T ch rest (w1, snd s @ [e]) = (r, s1)"
      by (simp add: e_def)
    from Cons.IH [OF this] obtain new where n:
      "snd s1 = (snd s @ [e]) @ new" "\<forall>c\<in>set new. ck_channel c = ch"
      "map ck_url new = map cand_url (take (length new) rest)" "length new \<le> length rest"
      "\<forall>c\<in>set (butlast new). \<not> ck_ok c"
      "case r of None \<Rightarrow> length new = length rest \<and> (\<forall>c\<in>set new. \<not> ck_ok c)
         | Some c \<Rightarrow> new \<noteq> [] \<and> ck_ok (last new) \<and> c = rest ! (length new - 1)"
      by auto
    have b: "\<forall>c\<in>set (butlast (e # new)). \<not> ck_ok c"
      using n(5) False by (cases new) (auto simp: e_def)
    show ?thesis
      using n(1-4) b n(6) False
      by (intro exI [of _ "e # new"]) (auto simp: e_def split: option.splits)
  qed
qed

lemma in_set_map_filter:
  "y \<in> set (List.map_filter f xs) \<longleftrightarrow> (\<exists>x\<in>set xs. f x = Some y)"
  by (induction xs) (auto split: option.splits)

lemma candidate_of_alive:
  assumes "candidate_of uth hq it = Some c"
  shows "endpoint_alive uth hq (cand_url c)"
proof (cases "uth (item_url it)")
  case None
  with assms show ?thesis by (simp add: candidate_of_def)
next
  case (Some h)
  note h = this
  show ?thesis
  proof (cases "hq h")
    case None
    with h assms show ?thesis by (simp add: candidate_of_def split: if_splits)
  next
    case (Some q)
    with h assms have "q_alive q" and "cand_url c = item_url it"
      by (auto simp: candidate_of_def split: if_splits)
    with h Some show ?thesis by (simp add: endpoint_alive_def)
  qed
qed

lemma channel_candidates_alive:
  assumes "c \<in> set (channel_candidates uth hq items)"
  shows "endpoint_alive uth hq (cand_url c)"
proof -
  from assms have "c \<in> set (List.map_filter (candidate_of uth hq) items)"
    by (simp add: channel_candidates_def)
  then obtain it where "candidate_of uth hq it = Some c"
    unfolding in_set_map_filter by blast
  then show ?thesis using candidate_of_alive by blast
qed

lemma channel_to_candidates_alive:
  assumes "(ch, cs) \<in> set (channel_to_candidates uth hq grouped)" and "c \<in> set cs"
  shows "endpoint_alive uth hq (cand_url c)"
proof -
  from assms(1) obtain e where
    "(case e of (clean_name, items) \<Rightarrow>
        (let candidates = channel_candidates uth hq items
         in if candidates \<noteq> [] then Some (clean_name, candidates) else None)) = Some (ch, cs)"
    unfolding channel_to_candidates_def in_set_map_filter by blast
  then have "cs = channel_candidates uth hq (snd e)"
    by (cases e) (simp add: Let_def split: if_splits)
  with assms(2) show ?thesis by (simp add: channel_candidates_alive)
qed

lemma select_channel_alive:
  assumes "select_channel T (ch, cs) (final, s) = (final1, s1)"
    and "\<forall>c\<in>set cs. G (cand_url c)"
    and "\<forall>x\<in>set final. G (sel_url x)" and "\<forall>c\<in>set (snd s). G (ck_url c)"
  shows "(\<forall>x\<in>set final1. G (sel_url x)) \<and> (\<forall>c\<in>set (snd s1). G (ck_url c))"
proof -
  obtain r s2 where fw: "first_working T ch cs s = (r, s2)" by (cases "first_working T ch cs s")
  from first_working_spec [OF fw] obtain new where n:
    "snd s2 = snd s @ new \<and> (\<forall>c\<in>set new. ck_channel c = ch) \<and>
     map ck_url new = map cand_url (take (length new) cs) \<and> length new \<le> length cs \<and>
     (\<forall>c\<in>set (butlast new). \<not> ck_ok c) \<and>
     (case r of
        None \<Rightarrow> length new = length cs \<and> (\<forall>c\<in>set new. \<not> ck_ok c)
      | Some cand \<Rightarrow> new \<noteq> [] \<and> ck_ok (last new) \<and> cand = cs ! (length new - 1))" ..
  from n have n1: "snd s2 = snd s @ new" by (rule conjunct1)
  from n have n2: "map ck_url new = map cand_url (take (length new) cs)" by blast
  from n have n3: "length new \<le> length cs" by blast
  have "set (map ck_url new) \<subseteq> cand_url ` set cs"
    unfolding n2 using set_take_subset [of "length new" cs] by auto
  then have g: "\<forall>c\<in>set new. G (ck_url c)" using assms(2) by auto
  have s12: "s1 = s2" using assms(1) fw by (cases r) simp_all
  have tr: "\<forall>c\<in>set (snd s1). G (ck_url c)"
    using g assms(4) unfolding s12 n1 by auto
  have "\<forall>x\<in>set final1. G (sel_url x)"
  proof (cases r)
    case None
    with assms(1) fw have "final1 = final" by simp
    with assms(3) show ?thesis by simp
  next
    case (Some cand)
    with n have "new \<noteq> []" and c: "cand = cs ! (length new - 1)" by simp_all
    then have "length new - 1 < length cs" using n3 by (cases new) simp_all
    then have "cand \<in> set cs" unfolding c by (rule nth_mem)
    with assms(2) have "G (cand_url cand)" by simp
    moreover from Some assms(1) fw have
      "final1 = final @ [\<lparr>sel_channel = ch, sel_original_name = cand_original_name cand,
          sel_url = cand_url cand\<rparr>]" by simp
    ultimately show ?thesis using assms(3) by simp
  qed
  with tr show ?thesis by simp
qed

lemma fold_select_channel_alive:
  assumes "\<forall>(ch, cs)\<in>set c2c. \<forall>c\<in>set cs. G (cand_url c)"
    and "\<forall>x\<in>set (fst st). G (sel_url x)" and "\<forall>c\<in>set (snd (snd st)). G (ck_url c)"
  shows "(\<forall>x\<in>set (fst (fold (select_channel T) c2c st)). G (sel_url x)) \<and>
         (\<forall>c\<in>set (snd (snd (fold (select_channel T) c2c st))). G (ck_url c))"
  using assms
proof (induction c2c arbitrary: st)
  case Nil
  then show ?case by simp
next
  case (Cons e rest)
  obtain ch cs where e: "e = (ch, cs)" by (cases e)
  obtain final s where st: "st = (final, s)" by (cases st)
  obtain final1 s1 where step: "select_channel T (ch, cs) (final, s) = (final1, s1)"
    by (cases "select_channel T (ch, cs) (final, s)")
  from Cons.prems e have cs: "\<forall>c\<in>set cs. G (cand_url c)" by auto
  from select_channel_alive [OF step cs] Cons.prems(2,3) st
  have "(\<forall>x\<in>set final1. G (sel_url x)) \<and> (\<forall>c\<in>set (snd s1). G (ck_url c))" by simp
  moreover from Cons.prems(1) have "\<forall>(ch, cs)\<in>set rest. \<forall>c\<in>set cs. G (cand_url c)" by simp
  ultimately show ?case
    using Cons.IH [of "(final1, s1)"] e st step by simp
qed

lemma channel_to_candidates_all_alive:
  "\<forall>e\<in>set (channel_to_candidates uth hq grouped). \<forall>c\<in>set (snd e). endpoint_alive uth hq (cand_url c)"
proof (intro ballI)
  fix e c
  assume "e \<in> set (channel_to_candidates uth hq grouped)" and c: "c \<in> set (snd e)"
  then have "(fst e, snd e) \<in> set (channel_to_candidates uth hq grouped)" by simp
  from channel_to_candidates_alive [OF this c] show "endpoint_alive uth hq (cand_url c)" .
qed

text \<open>
  Claim C6. Whatever the channels, the quality map and the URL-to-endpoint map:
  every entry of the final list, every URL the confirmatory prober is called on, and
  every candidate of every channel has an owning endpoint whose record is alive
  (an endpoint with no record, and a URL with no endpoint, do not count as alive).
\<close>

theorem only_alive_endpoints_selected:
  "(\<forall>x\<in>set (fst (build_final_playlist T grouped url_to_host host_quality w)).
      endpoint_alive url_to_host host_quality (sel_url x)) \<and>
   (\<forall>c\<in>set (snd (snd (build_final_playlist T grouped url_to_host host_quality w))).
      endpoint_alive url_to_host host_quality (ck_url c)) \<and>
   (\<forall>e\<in>set grouped. \<forall>c\<in>set (channel_candidates url_to_host host_quality (snd e)).
      endpoint_alive url_to_host host_quality (cand_url c))"
proof -
  have a: "\<forall>(ch, cs)\<in>set (channel_to_candidates url_to_host host_quality grouped).
      \<forall>c\<in>set cs. endpoint_alive url_to_host host_quality (cand_url c)"
    using channel_to_candidates_all_alive [of url_to_host host_quality grouped]
    by (simp add: case_prod_beta)
  have b: "\<forall>x\<in>set (fst (([], (w, [])) :: selected list \<times> ('a \<times> check list))).
      endpoint_alive url_to_host host_quality (sel_url x)" by simp
  have c: "\<forall>c\<in>set (snd (snd (([], (w, [])) :: selected list \<times> ('a \<times> check list)))).
      endpoint_alive url_to_host host_quality (ck_url c)" by simp
  have d: "\<forall>e\<in>set grouped. \<forall>c\<in>set (channel_candidates url_to_host host_quality (snd e)).
      endpoint_alive url_to_host host_quality (cand_url c)"
    by (simp add: channel_candidates_alive)
  from fold_select_channel_alive [OF a b c, of T] d
  show ?thesis unfolding build_final_playlist_def by blast
qed

lemma select_channel_other:
  assumes "fst e \<noteq> ch"
  shows "(selection_of ch (fst (select_channel T e st)), checks_of ch (snd (snd (select_channel T e st))))
       = (selection_of ch (fst st), checks_of ch (snd (snd st)))"
proof -
  obtain ch1 cs where e: "e = (ch1, cs)" by (cases e)
  obtain final s where st: "st = (final, s)" by (cases st)
  obtain r s2 where fw: "first_working T ch1 cs s = (r, s2)" by (cases "first_working T ch1 cs s")
  from first_working_spec [OF fw] obtain new where n:
    "snd s2 = snd s @ new \<and> (\<forall>c\<in>set new. ck_channel c = ch1) \<and>
     map ck_url new = map cand_url (take (length new) cs) \<and> length new \<le> length cs \<and>
     (\<forall>c\<in>set (butlast new). \<not> ck_ok c) \<and>
     (case r of
        None \<Rightarrow> length new = length cs \<and> (\<forall>c\<in>set new. \<not> ck_ok c)
      | Some cand \<Rightarrow> new \<noteq> [] \<and> ck_ok (last new) \<and> cand = cs ! (length new - 1))" ..
  from n have n1: "snd s2 = snd s @ new" by (rule conjunct1)
  from n have n2: "\<forall>c\<in>set new. ck_channel c = ch1" by blast
  from assms e have ne: "ch1 \<noteq> ch" by simp
  with n2 have "filter (\<lambda>c. ck_channel c = ch) new = []" by (auto simp: filter_empty_conv)
  then have tr: "checks_of ch (snd s2) = checks_of ch (snd s)"
    by (simp add: checks_of_def n1)
  show ?thesis
  proof (cases r)
    case None
    with fw have "select_channel T e st = (final, s2)" by (simp add: e st)
    with tr show ?thesis by (simp add: st)
  next
    case (Some cand)
    with fw have "select_channel T e st =
      (final @ [\<lparr>sel_channel = ch1, sel_original_name = cand_original_name cand,
          sel_url = cand_url cand\<rparr>], s2)" by (simp add: e st)
    with tr ne show ?thesis by (simp add: st selection_of_def)
  qed
qed

lemma select_channel_own:
  fixes T :: "'w tester" and cs :: "candidate list" and ch :: string
    and st :: "selected list \<times> ('w \<times> check list)"
  assumes "selection_of ch (fst st) = []" and "checks_of ch (snd (snd st)) = []"
  defines "st1 \<equiv> select_channel T (ch, cs) st"
  defines "checks \<equiv> checks_of ch (snd (snd st1))"
  shows "length checks \<le> length cs \<and>
     map ck_url checks = map cand_url (take (length checks) cs) \<and>
     (\<forall>c\<in>set (butlast checks). \<not> ck_ok c) \<and>
     (if checks \<noteq> [] \<and> ck_ok (last checks)
      then selection_of ch (fst st1) =
             [\<lparr>sel_channel = ch, sel_original_name = cand_original_name (cs ! (length checks - 1)),
               sel_url = cand_url (cs ! (length checks - 1))\<rparr>]
      else length checks = length cs \<and> selection_of ch (fst st1) = [])"
proof -
  obtain final s where st: "st = (final, s)" by (cases st)
  obtain r s2 where fw: "first_working T ch cs s = (r, s2)" by (cases "first_working T ch cs s")
  from first_working_spec [OF fw] obtain new where n:
    "snd s2 = snd s @ new \<and> (\<forall>c\<in>set new. ck_channel c = ch) \<and>
     map ck_url new = map cand_url (take (length new) cs) \<and> length new \<le> length cs \<and>
     (\<forall>c\<in>set (butlast new). \<not> ck_ok c) \<and>
     (case r of
        None \<Rightarrow> length new = length cs \<and> (\<forall>c\<in>set new. \<not> ck_ok c)
      | Some cand \<Rightarrow> new \<noteq> [] \<and> ck_ok (last new) \<and> cand = cs ! (length new - 1))" ..
  from n have n1: "snd s2 = snd s @ new" by (rule conjunct1)
  from n have n2: "\<forall>c\<in>set new. ck_channel c = ch" by blast
  from n have n3: "map ck_url new = map cand_url (take (length new) cs)" by blast
  from n have n4: "length new \<le> length cs" by blast
  from n have n5: "\<forall>c\<in>set (butlast new). \<not> ck_ok c" by blast
  from n2 have "filter (\<lambda>c. ck_channel c = ch) new = new" by (simp add: filter_id_conv)
  with assms(2) have c2: "checks_of ch (snd s2) = new"
    by (simp add: checks_of_def n1 st)
  have s1: "snd st1 = s2" using fw by (cases r) (simp_all add: st1_def st)
  have ck: "checks = new" by (simp add: checks_def s1 c2)
  show ?thesis
  proof (cases r)
    case None
    with n have a: "length new = length cs" and b: "\<forall>c\<in>set new. \<not> ck_ok c" by simp_all
    from None fw have "fst st1 = final" by (simp add: st1_def st)
    with assms(1) have sel: "selection_of ch (fst st1) = []" by (simp add: st)
    have "\<not> (new \<noteq> [] \<and> ck_ok (last new))" using b by (cases new rule: rev_cases) simp_all
    with a sel n3 n4 n5 show ?thesis unfolding ck by simp
  next
    case (Some cand)
    with n have a: "new \<noteq> []" and b: "ck_ok (last new)" and c: "cand = cs ! (length new - 1)"
      by simp_all
    from Some fw have "fst st1 = final @ [\<lparr>sel_channel = ch, sel_original_name = cand_original_name cand,
          sel_url = cand_url cand\<rparr>]" by (simp add: st1_def st)
    with assms(1) have "selection_of ch (fst st1) =
       [\<lparr>sel_channel = ch, sel_original_name = cand_original_name cand, sel_url = cand_url cand\<rparr>]"
      by (simp add: st selection_of_def)
    with a b c n3 n4 n5 show ?thesis unfolding ck by simp
  qed
qed

lemma filter_map_filter_key:
  assumes "\<And>k v y. f (k, v) = Some y \<Longrightarrow> fst y = k"
  shows "filter (\<lambda>e. fst e = h) (List.map_filter f xs) = List.map_filter f (filter (\<lambda>e. fst e = h) xs)"
proof (induction xs)
  case Nil
  then show ?case by simp
next
  case (Cons x xs)
  obtain k v where x: "x = (k, v)" by (cases x)
  show ?case
  proof (cases "f (k, v)")
    case None
    with Cons.IH show ?thesis by (auto simp: x)
  next
    case (Some y)
    with assms have "fst y = k" by blast
    with Some Cons.IH show ?thesis by (auto simp: x)
  qed
qed

lemma channel_to_candidates_key:
  assumes "distinct (map fst grouped)" and "(ch, items) \<in> set grouped"
  shows "filter (\<lambda>e. fst e = ch) (channel_to_candidates uth hq grouped) =
     (if channel_candidates uth hq items \<noteq> [] then [(ch, channel_candidates uth hq items)] else [])"
proof -
  have "filter (\<lambda>e. fst e = ch) grouped = [(ch, items)]"
    using assms by (rule filter_key_distinct)
  moreover have "filter (\<lambda>e. fst e = ch) (channel_to_candidates uth hq grouped) =
    List.map_filter
       (\<lambda>(clean_name, items).
          (let candidates = channel_candidates uth hq items
           in if candidates \<noteq> [] then Some (clean_name, candidates) else None))
       (filter (\<lambda>e. fst e = ch) grouped)"
    unfolding channel_to_candidates_def
    by (rule filter_map_filter_key) (auto simp: Let_def split: if_splits)
  ultimately show ?thesis by (simp add: Let_def)
qed

lemma candidate_of_Some:
  "candidate_of uth hq it = Some c \<longleftrightarrow>
     (\<exists>h q. uth (item_url it) = Some h \<and> h \<noteq> [] \<and> hq h = Some q \<and> q_alive q \<and>
        c = \<lparr>cand_url = item_url it, cand_latency = q_latency q,
             cand_original_name = item_original_name it\<rparr>)"
proof (cases "uth (item_url it)")
  case None
  then show ?thesis by (simp add: candidate_of_def)
next
  case (Some h)
  note h = this
  show ?thesis
  proof (cases "h = []")
    case True
    with h show ?thesis by (simp add: candidate_of_def)
  next
    case False
    note ne = this
    show ?thesis
    proof (cases "hq h")
      case None
      with h ne show ?thesis by (simp add: candidate_of_def)
    next
      case (Some q)
      with h ne show ?thesis by (cases "q_alive q") (auto simp: candidate_of_def)
    qed
  qed
qed

lemma candidate_of_defined:
  "(candidate_of uth hq it \<noteq> None) =
     (\<exists>h q. uth (item_url it) = Some h \<and> h \<noteq> [] \<and> hq h = Some q \<and> q_alive q)"
proof
  assume "candidate_of uth hq it \<noteq> None"
  then obtain c where "candidate_of uth hq it = Some c" by blast
  then show "\<exists>h q. uth (item_url it) = Some h \<and> h \<noteq> [] \<and> hq h = Some q \<and> q_alive q"
    unfolding candidate_of_Some by blast
next
  assume "\<exists>h q. uth (item_url it) = Some h \<and> h \<noteq> [] \<and> hq h = Some q \<and> q_alive q"
  then obtain h q where "uth (item_url it) = Some h \<and> h \<noteq> [] \<and> hq h = Some q \<and> q_alive q"
    by blast
  then have "candidate_of uth hq it = Some \<lparr>cand_url = item_url it, cand_latency = q_latency q,
             cand_original_name = item_original_name it\<rparr>"
    unfolding candidate_of_Some by blast
  then show "candidate_of uth hq it \<noteq> None" by simp
qed

lemma length_map_filter:
  "length (List.map_filter f xs) = length (filter (\<lambda>x. f x \<noteq> None) xs)"
  by (induction xs) (auto simp: List.map_filter_simps split: option.splits)

lemma channel_candidates_from_items:
  "(\<forall>c\<in>set (channel_candidates uth hq items). \<exists>it\<in>set items. \<exists>h q.
       uth (item_url it) = Some h \<and> h \<noteq> [] \<and> hq h = Some q \<and> q_alive q \<and>
       c = \<lparr>cand_url = item_url it, cand_latency = q_latency q,
            cand_original_name = item_original_name it\<rparr>) \<and>
   (\<forall>it\<in>set items. \<forall>h q.
       uth (item_url it) = Some h \<and> h \<noteq> [] \<and> hq h = Some q \<and> q_alive q \<longrightarrow>
       \<lparr>cand_url = item_url it, cand_latency = q_latency q,
        cand_original_name = item_original_name it\<rparr> \<in> set (channel_candidates uth hq items)) \<and>
   length (channel_candidates uth hq items) =
     length (filter (\<lambda>it. \<exists>h q. uth (item_url it) = Some h \<and> h \<noteq> [] \<and> hq h = Some q \<and> q_alive q) items)"
proof (intro conjI ballI allI impI)
  fix c
  assume "c \<in> set (channel_candidates uth hq items)"
  then have "c \<in> set (List.map_filter (candidate_of uth hq) items)"
    by (simp add: channel_candidates_def)
  then obtain it where it: "it \<in> set items" and "candidate_of uth hq it = Some c"
    unfolding in_set_map_filter by blast
  then have "\<exists>h q. uth (item_url it) = Some h \<and> h \<noteq> [] \<and> hq h = Some q \<and> q_alive q \<and>
       c = \<lparr>cand_url = item_url it, cand_latency = q_latency q,
            cand_original_name = item_original_name it\<rparr>"
    unfolding candidate_of_Some by blast
  with it show "\<exists>it\<in>set items. \<exists>h q.
       uth (item_url it) = Some h \<and> h \<noteq> [] \<and> hq h = Some q \<and> q_alive q \<and>
       c = \<lparr>cand_url = item_url it, cand_latency = q_latency q,
            cand_original_name = item_original_name it\<rparr>" by blast
next
  fix it h q
  assume it: "it \<in> set items"
    and "uth (item_url it) = Some h \<and> h \<noteq> [] \<and> hq h = Some q \<and> q_alive q"
  then have "candidate_of uth hq it = Some \<lparr>cand_url = item_url it, cand_latency = q_latency q,
        cand_original_name = item_original_name it\<rparr>"
    unfolding candidate_of_Some by blast
  with it have "\<lparr>cand_url = item_url it, cand_latency = q_latency q,
        cand_original_name = item_original_name it\<rparr> \<in> set (List.map_filter (candidate_of uth hq) items)"
    unfolding in_set_map_filter by blast
  then show "\<lparr>cand_url = item_url it, cand_latency = q_latency q,
        cand_original_name = item_original_name it\<rparr> \<in> set (channel_candidates uth hq items)"
    by (simp add: channel_candidates_def)
next
  show "length (channel_candidates uth hq items) =
     length (filter (\<lambda>it. \<exists>h q. uth (item_url it) = Some h \<and> h \<noteq> [] \<and> hq h = Some q \<and> q_alive q) items)"
  proof -
    have "length (channel_candidates uth hq items) =
        length (filter (\<lambda>it. candidate_of uth hq it \<noteq> None) items)"
      unfolding channel_candidates_def length_sort length_map_filter ..
    then show ?thesis unfolding candidate_of_defined .
  qed
qed

lemma replay_append:
  "replay f (us @ vs) w =
     (case replay f us w of (as, w1) \<Rightarrow> (case replay f vs w1 of (bs, w2) \<Rightarrow> (as @ bs, w2)))"
  by (induction us arbitrary: w) (auto split: prod.splits)

lemma replay_snoc:
  assumes "replay f us w = (as, w1)" and "f u w1 = (a, w2)"
  shows "replay f (us @ [u]) w = (as @ [a], w2)"
  using assms by (simp add: replay_append)

lemma first_working_replay:
  assumes "replay T (map ck_url (snd s)) w0 = (map ck_ok (snd s), fst s)"
  shows "replay T (map ck_url (snd (snd (first_working T ch cs s)))) w0 =
     (map ck_ok (snd (snd (first_working T ch cs s))), fst (snd (first_working T ch cs s)))"
  using assms
proof (induction cs arbitrary: s)
  case Nil
  then show ?case by simp
next
  case (Cons cand rest)
  obtain ok w1 where T: "T (cand_url cand) (fst s) = (ok, w1)" by (cases "T (cand_url cand) (fst s)")
  define s1 where "s1 = (w1, snd s @ [Check ch (cand_url cand) ok])"
  have "replay T (map ck_url (snd s) @ [cand_url cand]) w0 = (map ck_ok (snd s) @ [ok], w1)"
    using Cons.prems T by (rule replay_snoc)
  then have inv: "replay T (map ck_url (snd s1)) w0 = (map ck_ok (snd s1), fst s1)"
    by (simp add: s1_def)
  show ?case
  proof (cases ok)
    case True
    with T have "first_working T ch (cand # rest) s = (Some cand, s1)" by (simp add: s1_def)
    with inv show ?thesis by simp
  next
    case False
    with T have "first_working T ch (cand # rest) s = first_working T ch rest s1" by (simp add: s1_def)
    with Cons.IH [OF inv] show ?thesis by simp
  qed
qed

lemma select_channel_replay:
  assumes "replay T (map ck_url (snd (snd st))) w0 = (map ck_ok (snd (snd st)), fst (snd st))"
  shows "replay T (map ck_url (snd (snd (select_channel T e st)))) w0 =
     (map ck_ok (snd (snd (select_channel T e st))), fst (snd (select_channel T e st)))"
proof -
  obtain ch cs where e: "e = (ch, cs)" by (cases e)
  obtain final s where st: "st = (final, s)" by (cases st)
  have "snd (select_channel T e st) = snd (first_working T ch cs s)"
    by (simp add: e st split: prod.splits option.splits)
  moreover from assms have "replay T (map ck_url (snd s)) w0 = (map ck_ok (snd s), fst s)"
    by (simp add: st)
  ultimately show ?thesis using first_working_replay [of T s w0 ch cs] by simp
qed

lemma build_final_playlist_replay:
  "replay T (map ck_url (snd (snd (build_final_playlist T grouped uth hq w)))) w =
     (map ck_ok (snd (snd (build_final_playlist T grouped uth hq w))),
      fst (snd (build_final_playlist T grouped uth hq w)))"
proof -
  have "replay T (map ck_url (snd (snd st))) w = (map ck_ok (snd (snd st)), fst (snd st)) \<Longrightarrow>
      replay T (map ck_url (snd (snd (fold (select_channel T) c2c st)))) w =
        (map ck_ok (snd (snd (fold (select_channel T) c2c st))), fst (snd (fold (select_channel T) c2c st)))"
    for c2c and st :: "selected list \<times> ('a \<times> check list)"
  proof (induction c2c arbitrary: st)
    case Nil
    then show ?case by simp
  next
    case (Cons e rest)
    from Cons.IH [OF select_channel_replay [OF Cons.prems, of e]] show ?case by simp
  qed
  from this [of "([], (w, []))"] show ?thesis
    by (simp add: build_final_playlist_def)
qed

text \<open>
  Claim C7. For a channel of \<^verbatim>\<open>grouped\<close>:
  \<^item> its candidates are its items whose URL has an endpoint with an alive record, each
    with the latency of that record, and they are sorted by ascending latency;
  \<^item> the confirmatory probes made for the channel are, in order, those of a prefix of
    the sorted candidates; every probe but the last one failed;
  \<^item> if the last one passed, its candidate is the channel's one entry in the final list
    (so no later candidate was probed); otherwise every candidate was probed and the
    channel has no entry in the final list;
  \<^item> the answers in the log are those of the confirmatory prober, called on the logged
    URLs in the logged order, and it was called on nothing else.
\<close>

theorem candidates_tried_in_latency_order:
  fixes T :: "'w tester"
  assumes "distinct (map fst grouped)" and "(ch, items) \<in> set grouped"
    and cands_def: "cands = channel_candidates url_to_host host_quality items"
    and res_def: "res = build_final_playlist T grouped url_to_host host_quality w"
    and checks_def: "checks = checks_of ch (snd (snd res))"
  shows "sorted (map cand_latency cands) \<and>
     length checks \<le> length cands \<and>
     map ck_url checks = map cand_url (take (length checks) cands) \<and>
     (\<forall>c\<in>set (butlast checks). \<not> ck_ok c) \<and>
     (if checks \<noteq> [] \<and> ck_ok (last checks)
      then selection_of ch (fst res) =
             [\<lparr>sel_channel = ch, sel_original_name = cand_original_name (cands ! (length checks - 1)),
               sel_url = cand_url (cands ! (length checks - 1))\<rparr>]
      else length checks = length cands \<and> selection_of ch (fst res) = []) \<and>
     (\<forall>c\<in>set cands. \<exists>it\<in>set items. \<exists>h q.
         url_to_host (item_url it) = Some h \<and> h \<noteq> [] \<and> host_quality h = Some q \<and> q_alive q \<and>
         c = \<lparr>cand_url = item_url it, cand_latency = q_latency q,
              cand_original_name = item_original_name it\<rparr>) \<and>
     (\<forall>it\<in>set items. \<forall>h q.
         url_to_host (item_url it) = Some h \<and> h \<noteq> [] \<and> host_quality h = Some q \<and> q_alive q \<longrightarrow>
         \<lparr>cand_url = item_url it, cand_latency = q_latency q,
          cand_original_name = item_original_name it\<rparr> \<in> set cands) \<and>
     length cands =
       length (filter (\<lambda>it. \<exists>h q. url_to_host (item_url it) = Some h \<and> h \<noteq> [] \<and>
                                  host_quality h = Some q \<and> q_alive q) items) \<and>
     replay T (map ck_url (snd (snd res))) w = (map ck_ok (snd (snd res)), fst (snd res))"
proof -
  let ?obs = "\<lambda>st :: selected list \<times> ('w \<times> check list).
      (selection_of ch (fst st), checks_of ch (snd (snd st)))"
  let ?c2c = "channel_to_candidates url_to_host host_quality grouped"
  let ?st0 = "([], (w, [])) :: selected list \<times> ('w \<times> check list)"
  have skip: "\<And>e st. fst e \<noteq> ch \<Longrightarrow> ?obs (select_channel T e st) = ?obs st"
    by (rule select_channel_other)
  have key: "filter (\<lambda>e. fst e = ch) ?c2c = (if cands \<noteq> [] then [(ch, cands)] else [])"
    unfolding cands_def using assms(1,2) by (rule channel_to_candidates_key)
  have res: "res = fold (select_channel T) ?c2c ?st0"
    by (simp add: res_def build_final_playlist_def)
  have srt: "sorted (map cand_latency cands)"
    by (simp add: cands_def channel_candidates_def)
  have obs0: "?obs ?st0 = ([], [])" by (simp add: selection_of_def checks_of_def)
  have order: "length checks \<le> length cands \<and>
     map ck_url checks = map cand_url (take (length checks) cands) \<and>
     (\<forall>c\<in>set (butlast checks). \<not> ck_ok c) \<and>
     (if checks \<noteq> [] \<and> ck_ok (last checks)
      then selection_of ch (fst res) =
             [\<lparr>sel_channel = ch, sel_original_name = cand_original_name (cands ! (length checks - 1)),
               sel_url = cand_url (cands ! (length checks - 1))\<rparr>]
      else length checks = length cands \<and> selection_of ch (fst res) = [])"
  proof (cases "cands = []")
    case True
    with key have "filter (\<lambda>e. fst e = ch) ?c2c = []" by simp
    from fold_key_none [of ch ?c2c ?obs "select_channel T" ?st0, OF this skip]
    have "?obs res = ([], [])" using obs0 by (simp add: res)
    then have "selection_of ch (fst res) = []" and "checks = []"
      by (simp_all add: checks_def)
    with True show ?thesis by simp
  next
    case False
    with key have "filter (\<lambda>e. fst e = ch) ?c2c = [(ch, cands)]" by simp
    from fold_key_one [of ch ?c2c "(ch, cands)" ?obs "select_channel T" ?st0, OF this skip]
    obtain s1 where s1: "?obs s1 = ?obs ?st0"
      and r: "?obs res = ?obs (select_channel T (ch, cands) s1)"
      unfolding res by blast
    from s1 obs0 have a: "selection_of ch (fst s1) = []" and b: "checks_of ch (snd (snd s1)) = []"
      by simp_all
    from r have c: "selection_of ch (fst res) = selection_of ch (fst (select_channel T (ch, cands) s1))"
      and d: "checks = checks_of ch (snd (snd (select_channel T (ch, cands) s1)))"
      by (simp_all add: checks_def)
    from select_channel_own [OF a b, of T cands] show ?thesis
      unfolding c d by simp
  qed
  note items = channel_candidates_from_items [of url_to_host host_quality items, folded cands_def]
  have rp: "replay T (map ck_url (snd (snd res))) w = (map ck_ok (snd (snd res)), fst (snd res))"
    unfolding res_def by (rule build_final_playlist_replay)
  from srt order items rp show ?thesis by blast
qed

lemma example_candidates:
  "channel_candidates url_to_host_example host_quality_example
     [\<lparr>item_url = ''http://a.test/x'', item_original_name = ''X via a''\<rparr>,
      \<lparr>item_url = ''http://c.test/x'', item_original_name = ''X via c''\<rparr>,
      \<lparr>item_url = ''http://b.test/x'', item_original_name = ''X via b''\<rparr>] =
   [\<lparr>cand_url = ''http://b.test/x'', cand_latency = 1 / 10, cand_original_name = ''X via b''\<rparr>,
    \<lparr>cand_url = ''http://c.test/x'', cand_latency = 1 / 4, cand_original_name = ''X via c''\<rparr>]"
  by (simp add: channel_candidates_def candidate_of_def url_to_host_example_def
      host_quality_example_def)

lemma example_candidates_y:
  "channel_candidates url_to_host_example host_quality_example
     [\<lparr>item_url = ''http://a.test/y'', item_original_name = ''Y via a''\<rparr>] = []"
  by (simp add: channel_candidates_def candidate_of_def url_to_host_example_def
      host_quality_example_def)

lemma example_playlist:
  "build_final_playlist (tester_of [''http://c.test/x'']) grouped_example url_to_host_example
     host_quality_example 0 =
   ([\<lparr>sel_channel = ''X'', sel_original_name = ''X via c'', sel_url = ''http://c.test/x''\<rparr>],
    (2, [Check ''X'' ''http://b.test/x'' False, Check ''X'' ''http://c.test/x'' True]))"
  by (simp add: build_final_playlist_def channel_to_candidates_def grouped_example_def
      example_candidates example_candidates_y tester_of_def)

theorem only_alive_endpoints_selected_witness:
  "fst (build_final_playlist (tester_of [''http://c.test/x'']) grouped_example url_to_host_example
     host_quality_example 0) =
     [\<lparr>sel_channel = ''X'', sel_original_name = ''X via c'', sel_url = ''http://c.test/x''\<rparr>] \<and>
   endpoint_alive url_to_host_example host_quality_example ''http://c.test/x'' \<and>
   endpoint_alive url_to_host_example host_quality_example ''http://b.test/x''"
  using only_alive_endpoints_selected [of "tester_of [''http://c.test/x'']" grouped_example
      url_to_host_example host_quality_example 0]
  by (simp add: example_playlist)

theorem candidates_tried_in_latency_order_witness:
  "distinct (map fst grouped_example) \<and>
   channel_candidates url_to_host_example host_quality_example
     [\<lparr>item_url = ''http://a.test/x'', item_original_name = ''X via a''\<rparr>,
      \<lparr>item_url = ''http://c.test/x'', item_original_name = ''X via c''\<rparr>,
      \<lparr>item_url = ''http://b.test/x'', item_original_name = ''X via b''\<rparr>] =
   [\<lparr>cand_url = ''http://b.test/x'', cand_latency = 1 / 10, cand_original_name = ''X via b''\<rparr>,
    \<lparr>cand_url = ''http://c.test/x'', cand_latency = 1 / 4, cand_original_name = ''X via c''\<rparr>] \<and>
   checks_of ''X'' (snd (snd (build_final_playlist (tester_of [''http://c.test/x'']) grouped_example
     url_to_host_example host_quality_example 0))) =
     [Check ''X'' ''http://b.test/x'' False, Check ''X'' ''http://c.test/x'' True] \<and>
   selection_of ''X'' (fst (build_final_playlist (tester_of [''http://c.test/x'']) grouped_example
     url_to_host_example host_quality_example 0)) =
     [\<lparr>sel_channel = ''X'', sel_original_name = ''X via c'', sel_url = ''http://c.test/x''\<rparr>] \<and>
   selection_of ''Y'' (fst (build_final_playlist (tester_of [''http://c.test/x'']) grouped_example
     url_to_host_example host_quality_example 0)) = [] \<and>
   replay (tester_of [''http://c.test/x'']) [''http://b.test/x'', ''http://c.test/x''] 0 =
     ([False, True], 2)"
proof -
  have d: "distinct (map fst grouped_example)" by (simp add: grouped_example_def)
  have x: "(''X'', [\<lparr>item_url = ''http://a.test/x'', item_original_name = ''X via a''\<rparr>,
      \<lparr>item_url = ''http://c.test/x'', item_original_name = ''X via c''\<rparr>,
      \<lparr>item_url = ''http://b.test/x'', item_original_name = ''X via b''\<rparr>]) \<in> set grouped_example"
    by (simp add: grouped_example_def)
  have y: "(''Y'', [\<lparr>item_url = ''http://a.test/y'', item_original_name = ''Y via a''\<rparr>])
      \<in> set grouped_example"
    by (simp add: grouped_example_def)
  note X = candidates_tried_in_latency_order [OF d x refl refl refl,
      of url_to_host_example host_quality_example "tester_of [''http://c.test/x'']" 0]
  note Y = candidates_tried_in_latency_order [OF d y refl refl refl,
      of url_to_host_example host_quality_example "tester_of [''http://c.test/x'']" 0]
  from X have a: "checks_of ''X'' (snd (snd (build_final_playlist (tester_of [''http://c.test/x''])
      grouped_example url_to_host_example host_quality_example 0))) =
     [Check ''X'' ''http://b.test/x'' False, Check ''X'' ''http://c.test/x'' True]"
    by (simp add: example_playlist checks_of_def)
  from X [THEN conjunct2, THEN conjunct2, THEN conjunct2, THEN conjunct2, THEN conjunct1]
  have b: "selection_of ''X'' (fst (build_final_playlist (tester_of [''http://c.test/x'']) grouped_example
     url_to_host_example host_quality_example 0)) =
     [\<lparr>sel_channel = ''X'', sel_original_name = ''X via c'', sel_url = ''http://c.test/x''\<rparr>]"
    unfolding a example_candidates by simp
  from Y [THEN conjunct2, THEN conjunct2, THEN conjunct2, THEN conjunct2, THEN conjunct1]
  have c: "selection_of ''Y'' (fst (build_final_playlist (tester_of [''http://c.test/x'']) grouped_example
     url_to_host_example host_quality_example 0)) = []"
    by (simp add: example_playlist checks_of_def)
  from X [THEN conjunct2, THEN conjunct2, THEN conjunct2, THEN conjunct2, THEN conjunct2,
      THEN conjunct2, THEN conjunct2, THEN conjunct2]
  have e: "replay (tester_of [''http://c.test/x'']) [''http://b.test/x'', ''http://c.test/x''] 0 =
     ([False, True], 2)"
    by (simp add: example_playlist)
  from d example_candidates a b c e show ?thesis by blast
qed

subsection \<open>The Two-Phase Host Tester\<close>

lemma probes_of_events: "probes_of ph h tr = filter (\<lambda>e. ev_phase e = ph) (events_of h tr)"
  by (simp add: probes_of_def events_of_def conj_commute)

lemma run_probe_log:
  assumes "run_probe P ph h u s = (v, s1)"
  shows "snd s1 = snd s @ [Probe ph h u v]"
proof -
  obtain v1 w1 where p: "P u (fst s) = (v1, w1)" by (cases "P u (fst s)")
  with assms show ?thesis by (auto simp: run_probe_def)
qed

lemma screen_host_other:
  assumes "fst e \<noteq> h"
  shows "(fst (screen_host P e st) h, events_of h (snd (snd (screen_host P e st))))
       = (fst st h, events_of h (snd (snd st)))"
proof -
  obtain h1 d where e: "e = (h1, d)" by (cases e)
  obtain hq s where st: "st = (hq, s)" by (cases st)
  from assms e have ne: "h1 \<noteq> h" by simp
  show ?thesis
  proof (cases "rep_url d")
    case None
    then show ?thesis by (simp add: e st)
  next
    case (Some r)
    show ?thesis
    proof (cases "r = []")
      case True
      with Some show ?thesis by (simp add: e st)
    next
      case False
      obtain v s1 where rp: "run_probe P 1 h1 r s = (v, s1)" by (cases "run_probe P 1 h1 r s")
      from run_probe_log [OF rp] ne have "events_of h (snd s1) = events_of h (snd s)"
        by (simp add: events_of_def)
      with Some False rp ne show ?thesis by (simp add: e st)
    qed
  qed
qed

lemma screen_host_own:
  fixes P :: "'w prober" and hq :: "string \<rightharpoonup> quality" and s :: "'w \<times> event list"
  assumes "res = screen_host P (h, d) (hq, s)"
  shows "(case rep_url d of
           None \<Rightarrow> fst res h = hq h \<and> events_of h (snd (snd res)) = events_of h (snd s)
         | Some r \<Rightarrow>
            if r = [] then fst res h = hq h \<and> events_of h (snd (snd res)) = events_of h (snd s)
            else (\<exists>v. events_of h (snd (snd res)) = events_of h (snd s) @ [Probe 1 h r v] \<and>
                   fst res h = (if alive v
                     then Some \<lparr>q_alive = True, q_latency = latency v, q_type = type v,
                                 representative_url = Some r, trials = 1\<rparr>
                     else hq h)))"
proof (cases "rep_url d")
  case None
  with assms show ?thesis by simp
next
  case (Some r)
  show ?thesis
  proof (cases "r = []")
    case True
    with Some assms show ?thesis by simp
  next
    case False
    obtain v s1 where rp: "run_probe P 1 h r s = (v, s1)" by (cases "run_probe P 1 h r s")
    from run_probe_log [OF rp] have "events_of h (snd s1) = events_of h (snd s) @ [Probe 1 h r v]"
      by (simp add: events_of_def)
    moreover from Some False rp assms have "snd res = s1"
      and "fst res h = (if alive v
                     then Some \<lparr>q_alive = True, q_latency = latency v, q_type = type v,
                                 representative_url = Some r, trials = 1\<rparr>
                     else hq h)" by simp_all
    ultimately have "\<exists>v. events_of h (snd (snd res)) = events_of h (snd s) @ [Probe 1 h r v] \<and>
                   fst res h = (if alive v
                     then Some \<lparr>q_alive = True, q_latency = latency v, q_type = type v,
                                 representative_url = Some r, trials = 1\<rparr>
                     else hq h)" by blast
    with Some False show ?thesis by simp
  qed
qed

lemma queue_host_other:
  assumes "fst e \<noteq> h"
  shows "(filter (\<lambda>x. fst x = h) (fst (queue_host e st)), snd (queue_host e st) h)
       = (filter (\<lambda>x. fst x = h) (fst st), snd st h)"
proof -
  obtain h1 d where e: "e = (h1, d)" by (cases e)
  obtain todo hq where st: "st = (todo, hq)" by (cases st)
  from assms e have ne: "h1 \<noteq> h" by simp
  then show ?thesis by (simp add: e st Let_def)
qed

lemma queue_host_own:
  assumes "res = queue_host (h, d) (todo, hq)" and "filter (\<lambda>x. fst x = h) todo = []"
  shows "if hq h = None
         then (if filter (\<lambda>u. Some u \<noteq> rep_url d) (all_urls d) \<noteq> []
               then filter (\<lambda>x. fst x = h) (fst res) =
                      [(h, take 3 (filter (\<lambda>u. Some u \<noteq> rep_url d) (all_urls d)))] \<and>
                    snd res h = None
               else filter (\<lambda>x. fst x = h) (fst res) = [] \<and>
                    snd res h = Some \<lparr>q_alive = False, q_latency = 999, q_type = ''no_fallback'',
                              representative_url = rep_url d, trials = 1\<rparr>)
         else filter (\<lambda>x. fst x = h) (fst res) = [] \<and> snd res h = hq h"
  using assms by (simp add: Let_def)

lemma fallback_loop_spec:
  "fallback_loop P h cs i s = (r, s1) \<Longrightarrow>
   \<exists>new. snd s1 = snd s @ new \<and> (\<forall>e\<in>set new. ev_phase e = 2 \<and> ev_host e = h) \<and>
     map ev_url new = take (length new) cs \<and> length new \<le> length cs \<and>
     (\<forall>e\<in>set (butlast new). \<not> alive (ev_verdict e)) \<and>
     (case r of
        None \<Rightarrow> length new = length cs \<and> (\<forall>e\<in>set new. \<not> alive (ev_verdict e))
      | Some x \<Rightarrow> new \<noteq> [] \<and> alive (ev_verdict (last new)) \<and> snd x = i + length new \<and>
          fst x = \<lparr>fr_latency = latency (ev_verdict (last new)), fr_type = type (ev_verdict (last new)),
                   fr_url = Some (ev_url (last new))\<rparr>)"
proof (induction cs arbitrary: i s)
  case Nil
  then show ?case by auto
next
  case (Cons u rest)
  obtain v s2 where rp: "run_probe P 2 h u s = (v, s2)" by (cases "run_probe P 2 h u s")
  define e where "e = Probe 2 h u v"
  from run_probe_log [OF rp] have log: "snd s2 = snd s @ [e]" by (simp add: e_def)
  show ?case
  proof (cases "alive v")
    case True
    with Cons.prems rp have "r = Some (\<lparr>fr_latency = latency v, fr_type = type v, fr_url = Some u\<rparr>, i + 1)"
      and "s1 = s2" by simp_all
    with True log show ?thesis by (intro exI [of _ "[e]"]) (simp add: e_def)
  next
    case False
    with Cons.prems rp have "fallback_loop P h rest (i + 1) s2 = (r, s1)" by simp
    from Cons.IH [OF this] obtain new where n:
      "snd s1 = snd s2 @ new \<and> (\<forall>e\<in>set new. ev_phase e = 2 \<and> ev_host e = h) \<and>
       map ev_url new = take (length new) rest \<and> length new \<le> length rest \<and>
       (\<forall>e\<in>set (butlast new). \<not> alive (ev_verdict e)) \<and>
       (case r of
          None \<Rightarrow> length new = length rest \<and> (\<forall>e\<in>set new. \<not> alive (ev_verdict e))
        | Some x \<Rightarrow> new \<noteq> [] \<and> alive (ev_verdict (last new)) \<and> snd x = (i + 1) + length new \<and>
            fst x = \<lparr>fr_latency = latency (ev_verdict (last new)), fr_type = type (ev_verdict (last new)),
                     fr_url = Some (ev_url (last new))\<rparr>)" ..
    from n have n1: "snd s1 = snd s2 @ new" by (rule conjunct1)
    from n have n2: "\<forall>e\<in>set new. ev_phase e = 2 \<and> ev_host e = h" by blast
    from n have n3: "map ev_url new = take (length new) rest" by blast
    from n have n4: "length new \<le> length rest" by blast
    from n have n5: "\<forall>e\<in>set (butlast new). \<not> alive (ev_verdict e)" by blast
    from n have n6: "case r of
          None \<Rightarrow> length new = length rest \<and> (\<forall>e\<in>set new. \<not> alive (ev_verdict e))
        | Some x \<Rightarrow> new \<noteq> [] \<and> alive (ev_verdict (last new)) \<and> snd x = (i + 1) + length new \<and>
            fst x = \<lparr>fr_latency = latency (ev_verdict (last new)), fr_type = type (ev_verdict (last new)),
                     fr_url = Some (ev_url (last new))\<rparr>" by blast
    have a: "snd s1 = snd s @ (e # new)" by (simp add: n1 log)
    have b: "\<forall>x\<in>set (e # new). ev_phase x = 2 \<and> ev_host x = h" using n2 by (simp add: e_def)
    have c: "map ev_url (e # new) = take (length (e # new)) (u # rest)" using n3 by (simp add: e_def)
    have d: "length (e # new) \<le> length (u # rest)" using n4 by simp
    have f: "\<forall>x\<in>set (butlast (e # new)). \<not> alive (ev_verdict x)"
      using n5 False by (cases new) (simp_all add: e_def)
    have g: "case r of
          None \<Rightarrow> length (e # new) = length (u # rest) \<and> (\<forall>x\<in>set (e # new). \<not> alive (ev_verdict x))
        | Some x \<Rightarrow> e # new \<noteq> [] \<and> alive (ev_verdict (last (e # new))) \<and>
            snd x = i + length (e # new) \<and>
            fst x = \<lparr>fr_latency = latency (ev_verdict (last (e # new))),
                     fr_type = type (ev_verdict (last (e # new))),
                     fr_url = Some (ev_url (last (e # new)))\<rparr>"
    proof (cases r)
      case None
      with n6 False show ?thesis by (simp add: e_def)
    next
      case (Some x)
      with n6 show ?thesis by simp
    qed
    from a b c d f g show ?thesis by blast
  qed
qed

lemma filter_host_all: "\<forall>e\<in>set new. ev_phase e = 2 \<and> ev_host e = h \<Longrightarrow> events_of h new = new"
  by (simp add: events_of_def filter_id_conv)

lemma filter_host_none:
  "\<forall>e\<in>set new. ev_phase e = 2 \<and> ev_host e = h1 \<Longrightarrow> h1 \<noteq> h \<Longrightarrow> events_of h new = []"
  by (auto simp: events_of_def filter_empty_conv)

lemma events_of_append: "events_of h (xs @ ys) = events_of h xs @ events_of h ys"
  by (simp add: events_of_def)

lemma fallback_test_log:
  assumes "fallback_test P (h1, cs) s = (x, s1)"
  shows "\<exists>new. snd s1 = snd s @ new \<and> (\<forall>e\<in>set new. ev_phase e = 2 \<and> ev_host e = h1)"
proof -
  obtain r s2 where fl: "fallback_loop P h1 cs 0 s = (r, s2)" by (cases "fallback_loop P h1 cs 0 s")
  from fallback_loop_spec [OF fl] obtain new where
    n: "snd s2 = snd s @ new" "\<forall>e\<in>set new. ev_phase e = 2 \<and> ev_host e = h1" by blast
  show ?thesis
  proof (cases r)
    case (Some y)
    with assms fl have "s1 = s2" by (cases y) (simp add: fallback_test_def)
    with n show ?thesis by blast
  next
    case None
    show ?thesis
    proof (cases "cs = []")
      case True
      with None assms fl have "s1 = s2" by (simp add: fallback_test_def)
      with n show ?thesis by blast
    next
      case False
      obtain v s3 where rp: "run_probe P 2 h1 (last cs) s2 = (v, s3)"
        by (cases "run_probe P 2 h1 (last cs) s2")
      with None False assms fl have "s1 = s3" by (simp add: fallback_test_def)
      with run_probe_log [OF rp] n(1) have "snd s1 = snd s @ (new @ [Probe 2 h1 (last cs) v])" by simp
      moreover have "\<forall>e\<in>set (new @ [Probe 2 h1 (last cs) v]). ev_phase e = 2 \<and> ev_host e = h1"
        using n(2) by simp
      ultimately show ?thesis by blast
    qed
  qed
qed

lemma fallback_test_host:
  assumes "fallback_test P (h1, cs) s = ((h2, ok, fr, n), s1)"
  shows "h2 = h1"
proof -
  obtain r s2 where fl: "fallback_loop P h1 cs 0 s = (r, s2)" by (cases "fallback_loop P h1 cs 0 s")
  show ?thesis
  proof (cases r)
    case (Some y)
    with assms fl show ?thesis by (cases y) (simp add: fallback_test_def)
  next
    case None
    obtain v s3 where rp: "run_probe P 2 h1 (last cs) s2 = (v, s3)"
      by (cases "run_probe P 2 h1 (last cs) s2")
    with None assms fl show ?thesis by (cases "cs = []") (simp_all add: fallback_test_def)
  qed
qed

lemma retry_host_other:
  assumes "fst e \<noteq> h"
  shows "(fst (retry_host P hdata e st) h, events_of h (snd (snd (retry_host P hdata e st))))
       = (fst st h, events_of h (snd (snd st)))"
proof -
  obtain h1 cs where e: "e = (h1, cs)" by (cases e)
  obtain hq s where st: "st = (hq, s)" by (cases st)
  from assms e have ne: "h1 \<noteq> h" by simp
  obtain h2 ok fr n s1 where ft: "fallback_test P (h1, cs) s = ((h2, ok, fr, n), s1)"
    by (cases "fallback_test P (h1, cs) s") auto
  from fallback_test_host [OF ft] have h2: "h2 = h1" .
  from fallback_test_log [OF ft] obtain new where
    n: "snd s1 = snd s @ new" "\<forall>e\<in>set new. ev_phase e = 2 \<and> ev_host e = h1" by blast
  from filter_host_none [OF n(2) ne] have tr: "events_of h (snd s1) = events_of h (snd s)"
    by (simp add: n(1) events_of_append)
  have s: "snd (retry_host P hdata e st) = s1" using ft by (simp add: e st Let_def)
  have "fst (retry_host P hdata e st) h = hq h" using ft ne h2 by (simp add: e st Let_def)
  with s tr show ?thesis by (simp add: st)
qed

lemma retry_host_own:
  fixes P :: "'w prober" and hq :: "string \<rightharpoonup> quality" and s :: "'w \<times> event list"
  assumes res: "res = retry_host P hdata (h, cs) (hq, s)" and ne: "cs \<noteq> []"
    and rep: "rep = (case map_of hdata h of Some d \<Rightarrow> rep_url d | None \<Rightarrow> None)"
  shows "\<exists>new. events_of h (snd (snd res)) = events_of h (snd s) @ new \<and> new \<noteq> [] \<and>
      (\<forall>e\<in>set new. ev_phase e = 2 \<and> ev_host e = h) \<and>
      (\<forall>e\<in>set (butlast new). \<not> alive (ev_verdict e)) \<and>
      (if length new \<le> length cs
       then map ev_url new = take (length new) cs \<and> alive (ev_verdict (last new)) \<and>
            fst res h = Some \<lparr>q_alive = True, q_latency = latency (ev_verdict (last new)),
                               q_type = type (ev_verdict (last new)),
                               representative_url = Some (ev_url (last new)),
                               trials = 1 + length new\<rparr>
       else map ev_url new = cs @ [last cs] \<and>
            fst res h = Some \<lparr>q_alive = False, q_latency = latency (ev_verdict (last new)),
                               q_type = type (ev_verdict (last new)),
                               representative_url = rep, trials = 1 + length cs\<rparr>)"
proof -
  obtain r s2 where fl: "fallback_loop P h cs 0 s = (r, s2)" by (cases "fallback_loop P h cs 0 s")
  from fallback_loop_spec [OF fl] obtain new where n:
    "snd s2 = snd s @ new \<and> (\<forall>e\<in>set new. ev_phase e = 2 \<and> ev_host e = h) \<and>
     map ev_url new = take (length new) cs \<and> length new \<le> length cs \<and>
     (\<forall>e\<in>set (butlast new). \<not> alive (ev_verdict e)) \<and>
     (case r of
        None \<Rightarrow> length new = length cs \<and> (\<forall>e\<in>set new. \<not> alive (ev_verdict e))
      | Some x \<Rightarrow> new \<noteq> [] \<and> alive (ev_verdict (last new)) \<and> snd x = 0 + length new \<and>
          fst x = \<lparr>fr_latency = latency (ev_verdict (last new)), fr_type = type (ev_verdict (last new)),
                   fr_url = Some (ev_url (last new))\<rparr>)" ..
  from n have n1: "snd s2 = snd s @ new" by (rule conjunct1)
  from n have n2: "\<forall>e\<in>set new. ev_phase e = 2 \<and> ev_host e = h" by blast
  from n have n3: "map ev_url new = take (length new) cs" by blast
  from n have n4: "length new \<le> length cs" by blast
  from n have n5: "\<forall>e\<in>set (butlast new). \<not> alive (ev_verdict e)" by blast
  from n have n6: "case r of
        None \<Rightarrow> length new = length cs \<and> (\<forall>e\<in>set new. \<not> alive (ev_verdict e))
      | Some x \<Rightarrow> new \<noteq> [] \<and> alive (ev_verdict (last new)) \<and> snd x = 0 + length new \<and>
          fst x = \<lparr>fr_latency = latency (ev_verdict (last new)), fr_type = type (ev_verdict (last new)),
                   fr_url = Some (ev_url (last new))\<rparr>" by blast
  show ?thesis
  proof (cases r)
    case (Some x)
    obtain fr k where x: "x = (fr, k)" by (cases x)
    from n6 Some x have a: "new \<noteq> []" and b: "alive (ev_verdict (last new))"
      and k: "k = length new"
      and fr: "fr = \<lparr>fr_latency = latency (ev_verdict (last new)), fr_type = type (ev_verdict (last new)),
                   fr_url = Some (ev_url (last new))\<rparr>" by simp_all
    from Some x fl have ft: "fallback_test P (h, cs) s = ((h, True, fr, k), s2)"
      by (simp add: fallback_test_def)
    then have r1: "snd res = s2"
      and r2: "fst res h = Some \<lparr>q_alive = True, q_latency = fr_latency fr, q_type = fr_type fr,
                               representative_url = fr_url fr, trials = 1 + k\<rparr>"
      by (simp_all add: res Let_def)
    have ev: "events_of h (snd (snd res)) = events_of h (snd s) @ new"
      by (simp add: r1 n1 events_of_append filter_host_all [OF n2])
    have q: "fst res h = Some \<lparr>q_alive = True, q_latency = latency (ev_verdict (last new)),
                               q_type = type (ev_verdict (last new)),
                               representative_url = Some (ev_url (last new)),
                               trials = 1 + length new\<rparr>"
      by (simp add: r2 fr k)
    from ev a n2 n5 n4 n3 b q show ?thesis by (intro exI [of _ new]) simp
  next
    case None
    with n6 have len: "length new = length cs" and allf: "\<forall>e\<in>set new. \<not> alive (ev_verdict e)"
      by simp_all
    obtain v s3 where rp: "run_probe P 2 h (last cs) s2 = (v, s3)"
      by (cases "run_probe P 2 h (last cs) s2")
    define e where "e = Probe 2 h (last cs) v"
    from None fl rp ne have ft: "fallback_test P (h, cs) s =
        ((h, False, \<lparr>fr_latency = latency v, fr_type = type v, fr_url = None\<rparr>, length cs), s3)"
      by (simp add: fallback_test_def)
    then have r1: "snd res = s3"
      and r2: "fst res h = Some \<lparr>q_alive = False, q_latency = latency v, q_type = type v,
                               representative_url = rep, trials = 1 + length cs\<rparr>"
      by (simp_all add: res rep Let_def)
    from run_probe_log [OF rp] have log: "snd s3 = snd s @ (new @ [e])" by (simp add: n1 e_def)
    have all2: "\<forall>x\<in>set (new @ [e]). ev_phase x = 2 \<and> ev_host x = h"
      using n2 by (simp add: e_def)
    have ev: "events_of h (snd (snd res)) = events_of h (snd s) @ (new @ [e])"
    proof -
      have "events_of h (snd s @ (new @ [e])) = events_of h (snd s) @ events_of h (new @ [e])"
        by (rule events_of_append)
      then show ?thesis by (simp only: r1 log filter_host_all [OF all2])
    qed
    have urls: "map ev_url (new @ [e]) = cs @ [last cs]"
      using n3 len by (simp add: e_def)
    have bl: "\<forall>x\<in>set (butlast (new @ [e])). \<not> alive (ev_verdict x)" using allf by simp
    have q: "fst res h = Some \<lparr>q_alive = False, q_latency = latency (ev_verdict (last (new @ [e]))),
                               q_type = type (ev_verdict (last (new @ [e]))),
                               representative_url = rep, trials = 1 + length cs\<rparr>"
      by (simp add: r2 e_def)
    have gt: "\<not> length (new @ [e]) \<le> length cs" by (simp add: len)
    have nn: "new @ [e] \<noteq> []" by simp
    from ev nn all2 bl gt urls q show ?thesis
      by (intro exI [of _ "new @ [e]"]) (simp only: if_False simp_thms)
  qed
qed

lemma phase1_outcome:
  fixes P :: "'w prober"
  assumes f: "filter (\<lambda>e. fst e = h) hdata = [(h, d)]"
    and st1: "st1 = fold (screen_host P) hdata (Map.empty, (w, []))"
  shows "case rep_url d of
           None \<Rightarrow> fst st1 h = None \<and> events_of h (snd (snd st1)) = []
         | Some r \<Rightarrow>
            if r = [] then fst st1 h = None \<and> events_of h (snd (snd st1)) = []
            else (\<exists>v. events_of h (snd (snd st1)) = [Probe 1 h r v] \<and>
                   fst st1 h = (if alive v
                     then Some \<lparr>q_alive = True, q_latency = latency v, q_type = type v,
                                 representative_url = Some r, trials = 1\<rparr>
                     else None))"
proof -
  let ?obs = "\<lambda>st :: (string \<rightharpoonup> quality) \<times> ('w \<times> event list).
      (fst st h, events_of h (snd (snd st)))"
  let ?st0 = "(Map.empty, (w, [])) :: (string \<rightharpoonup> quality) \<times> ('w \<times> event list)"
  have skip: "\<And>e st. fst e \<noteq> h \<Longrightarrow> ?obs (screen_host P e st) = ?obs st"
    by (rule screen_host_other)
  from fold_key_one [of h hdata "(h, d)" ?obs "screen_host P" ?st0, OF f skip]
  obtain sa where sa: "?obs sa = ?obs ?st0" and r: "?obs st1 = ?obs (screen_host P (h, d) sa)"
    unfolding st1 by blast
  obtain hqa s where sa_eq: "sa = (hqa, s)" by (cases sa)
  from sa have a0: "hqa h = None" and e0: "events_of h (snd s) = []"
    by (simp_all add: sa_eq events_of_def)
  define res where "res = screen_host P (h, d) (hqa, s)"
  from r have r1: "fst st1 h = fst res h" and r2: "events_of h (snd (snd st1)) = events_of h (snd (snd res))"
    by (simp_all add: res_def sa_eq)
  from screen_host_own [OF res_def] show ?thesis
    unfolding r1 r2 a0 e0 append_Nil .
qed

lemma queue_outcome:
  assumes f: "filter (\<lambda>e. fst e = h) hdata = [(h, d)]"
    and qd: "qd = fold queue_host hdata ([], hq1)"
  shows "if hq1 h = None
         then (if filter (\<lambda>u. Some u \<noteq> rep_url d) (all_urls d) \<noteq> []
               then filter (\<lambda>x. fst x = h) (fst qd) =
                      [(h, take 3 (filter (\<lambda>u. Some u \<noteq> rep_url d) (all_urls d)))] \<and>
                    snd qd h = None
               else filter (\<lambda>x. fst x = h) (fst qd) = [] \<and>
                    snd qd h = Some \<lparr>q_alive = False, q_latency = 999, q_type = ''no_fallback'',
                              representative_url = rep_url d, trials = 1\<rparr>)
         else filter (\<lambda>x. fst x = h) (fst qd) = [] \<and> snd qd h = hq1 h"
proof -
  let ?obs = "\<lambda>st :: (string \<times> string list) list \<times> (string \<rightharpoonup> quality).
      (filter (\<lambda>x. fst x = h) (fst st), snd st h)"
  let ?st0 = "([], hq1) :: (string \<times> string list) list \<times> (string \<rightharpoonup> quality)"
  have skip: "\<And>e st. fst e \<noteq> h \<Longrightarrow> ?obs (queue_host e st) = ?obs st"
    by (rule queue_host_other)
  from fold_key_one [of h hdata "(h, d)" ?obs queue_host ?st0, OF f skip]
  obtain sb where sb: "?obs sb = ?obs ?st0" and r: "?obs qd = ?obs (queue_host (h, d) sb)"
    unfolding qd by blast
  obtain todo hqb where sb_eq: "sb = (todo, hqb)" by (cases sb)
  from sb have t0: "filter (\<lambda>x. fst x = h) todo = []" and b0: "hqb h = hq1 h"
    by (simp_all add: sb_eq)
  define res where "res = queue_host (h, d) (todo, hqb)"
  from r have r1: "filter (\<lambda>x. fst x = h) (fst qd) = filter (\<lambda>x. fst x = h) (fst res)"
    and r2: "snd qd h = snd res h"
    by (simp_all add: res_def sb_eq)
  from queue_host_own [OF res_def t0] show ?thesis
    unfolding r1 r2 b0 .
qed

lemma phase2_none:
  fixes P :: "'w prober" and hq2 :: "string \<rightharpoonup> quality" and s1 :: "'w \<times> event list"
  assumes f: "filter (\<lambda>x. fst x = h) todo = []"
    and res: "res = (if todo \<noteq> [] then fold (retry_host P hdata) todo (hq2, s1) else (hq2, s1))"
  shows "fst res h = hq2 h \<and> events_of h (snd (snd res)) = events_of h (snd s1)"
proof -
  let ?obs = "\<lambda>st :: (string \<rightharpoonup> quality) \<times> ('w \<times> event list).
      (fst st h, events_of h (snd (snd st)))"
  have skip: "\<And>e st. fst e \<noteq> h \<Longrightarrow> ?obs (retry_host P hdata e st) = ?obs st"
    by (rule retry_host_other)
  from fold_key_none [of h todo ?obs "retry_host P hdata" "(hq2, s1)", OF f skip]
  have "?obs (fold (retry_host P hdata) todo (hq2, s1)) = ?obs (hq2, s1)" .
  then have "?obs res = ?obs (hq2, s1)" unfolding res by (cases "todo = []") simp_all
  then show ?thesis by simp
qed

lemma phase2_one:
  fixes P :: "'w prober" and hq2 :: "string \<rightharpoonup> quality" and s1 :: "'w \<times> event list"
  assumes f: "filter (\<lambda>x. fst x = h) todo = [(h, cs)]" and ne: "cs \<noteq> []"
    and rep: "rep = (case map_of hdata h of Some d \<Rightarrow> rep_url d | None \<Rightarrow> None)"
    and res: "res = (if todo \<noteq> [] then fold (retry_host P hdata) todo (hq2, s1) else (hq2, s1))"
  shows "\<exists>new. events_of h (snd (snd res)) = events_of h (snd s1) @ new \<and> new \<noteq> [] \<and>
      (\<forall>e\<in>set new. ev_phase e = 2 \<and> ev_host e = h) \<and>
      (\<forall>e\<in>set (butlast new). \<not> alive (ev_verdict e)) \<and>
      (if length new \<le> length cs
       then map ev_url new = take (length new) cs \<and> alive (ev_verdict (last new)) \<and>
            fst res h = Some \<lparr>q_alive = True, q_latency = latency (ev_verdict (last new)),
                               q_type = type (ev_verdict (last new)),
                               representative_url = Some (ev_url (last new)),
                               trials = 1 + length new\<rparr>
       else map ev_url new = cs @ [last cs] \<and>
            fst res h = Some \<lparr>q_alive = False, q_latency = latency (ev_verdict (last new)),
                               q_type = type (ev_verdict (last new)),
                               representative_url = rep, trials = 1 + length cs\<rparr>)"
proof -
  let ?obs = "\<lambda>st :: (string \<rightharpoonup> quality) \<times> ('w \<times> event list).
      (fst st h, events_of h (snd (snd st)))"
  have skip: "\<And>e st. fst e \<noteq> h \<Longrightarrow> ?obs (retry_host P hdata e st) = ?obs st"
    by (rule retry_host_other)
  from f have tne: "todo \<noteq> []" by auto
  from fold_key_one [of h todo "(h, cs)" ?obs "retry_host P hdata" "(hq2, s1)", OF f skip]
  obtain sc where sc: "?obs sc = ?obs (hq2, s1)"
    and r: "?obs (fold (retry_host P hdata) todo (hq2, s1)) = ?obs (retry_host P hdata (h, cs) sc)"
    by blast
  obtain hqc s where sc_eq: "sc = (hqc, s)" by (cases sc)
  from sc have e0: "events_of h (snd s) = events_of h (snd s1)" by (simp add: sc_eq)
  define res1 where "res1 = retry_host P hdata (h, cs) (hqc, s)"
  from r tne have r1: "fst res h = fst res1 h"
    and r2: "events_of h (snd (snd res)) = events_of h (snd (snd res1))"
    by (simp_all add: res res1_def sc_eq)
  from retry_host_own [OF res1_def ne rep] show ?thesis
    unfolding r1 r2 e0 .
qed

lemma after_phase1:
  fixes P :: "'w prober" and hq1 :: "string \<rightharpoonup> quality" and s1 :: "'w \<times> event list"
  assumes fk: "filter (\<lambda>e. fst e = h) hdata = [(h, d)]"
    and mo: "map_of hdata h = Some d"
    and qd: "qd = fold queue_host hdata ([], hq1)"
    and res: "res = (if fst qd \<noteq> [] then fold (retry_host P hdata) (fst qd) (snd qd, s1)
                     else (snd qd, s1))"
    and alts: "alts = filter (\<lambda>u. Some u \<noteq> rep_url d) (all_urls d)"
  shows "if hq1 h \<noteq> None
         then fst res h = hq1 h \<and> events_of h (snd (snd res)) = events_of h (snd s1)
         else if alts = []
         then fst res h = Some \<lparr>q_alive = False, q_latency = 999, q_type = ''no_fallback'',
                              representative_url = rep_url d, trials = 1\<rparr> \<and>
              events_of h (snd (snd res)) = events_of h (snd s1)
         else (\<exists>new. events_of h (snd (snd res)) = events_of h (snd s1) @ new \<and> new \<noteq> [] \<and>
            (\<forall>e\<in>set new. ev_phase e = 2 \<and> ev_host e = h) \<and>
            (\<forall>e\<in>set (butlast new). \<not> alive (ev_verdict e)) \<and>
            (if length new \<le> length (take 3 alts)
             then map ev_url new = take (length new) (take 3 alts) \<and> alive (ev_verdict (last new)) \<and>
                  fst res h = Some \<lparr>q_alive = True, q_latency = latency (ev_verdict (last new)),
                               q_type = type (ev_verdict (last new)),
                               representative_url = Some (ev_url (last new)),
                               trials = 1 + length new\<rparr>
             else map ev_url new = take 3 alts @ [last (take 3 alts)] \<and>
                  fst res h = Some \<lparr>q_alive = False, q_latency = latency (ev_verdict (last new)),
                               q_type = type (ev_verdict (last new)),
                               representative_url = rep_url d, trials = 1 + length (take 3 alts)\<rparr>))"
proof -
  note B = queue_outcome [OF fk qd]
  have rep: "rep_url d = (case map_of hdata h of Some d \<Rightarrow> rep_url d | None \<Rightarrow> None)"
    by (simp add: mo)
  show ?thesis
  proof (cases "hq1 h = None")
    case False
    with B have "filter (\<lambda>x. fst x = h) (fst qd) = []" and q: "snd qd h = hq1 h" by simp_all
    from phase2_none [OF this(1) res] q False show ?thesis by simp
  next
    case True
    note none = this
    show ?thesis
    proof (cases "alts = []")
      case True
      with B none alts have f: "filter (\<lambda>x. fst x = h) (fst qd) = []"
        and q: "snd qd h = Some \<lparr>q_alive = False, q_latency = 999, q_type = ''no_fallback'',
                              representative_url = rep_url d, trials = 1\<rparr>" by simp_all
      from phase2_none [OF f res] q none True show ?thesis by simp
    next
      case False
      with B none alts have f: "filter (\<lambda>x. fst x = h) (fst qd) = [(h, take 3 alts)]"
        by simp
      from False have ne: "take 3 alts \<noteq> []" by (cases alts) simp_all
      from phase2_one [OF f ne rep res] none False show ?thesis by simp
    qed
  qed
qed

lemma build_host_data_entry:
  assumes "distinct (map fst hs)" and "(h, urls) \<in> set hs"
  shows "filter (\<lambda>e. fst e = h) (build_host_data hs) =
           [(h, \<lparr>all_urls = urls, rep_url = pick_rep_url urls\<rparr>)]"
    and "map_of (build_host_data hs) h = Some \<lparr>all_urls = urls, rep_url = pick_rep_url urls\<rparr>"
proof -
  have k: "map fst (build_host_data hs) = map fst hs"
    by (simp add: build_host_data_def case_prod_beta)
  with assms(1) have d: "distinct (map fst (build_host_data hs))" by simp
  from assms(2) have m: "(h, \<lparr>all_urls = urls, rep_url = pick_rep_url urls\<rparr>) \<in> set (build_host_data hs)"
    by (force simp: build_host_data_def)
  from d m show "filter (\<lambda>e. fst e = h) (build_host_data hs) =
           [(h, \<lparr>all_urls = urls, rep_url = pick_rep_url urls\<rparr>)]"
    by (rule filter_key_distinct)
  from d m show "map_of (build_host_data hs) h = Some \<lparr>all_urls = urls, rep_url = pick_rep_url urls\<rparr>"
    by (rule map_of_is_SomeI)
qed

lemma probes_split:
  assumes "events_of h tr = e1 @ new" and "\<forall>e\<in>set e1. ev_phase e = 1"
    and "\<forall>e\<in>set new. ev_phase e = 2 \<and> ev_host e = h"
  shows "probes_of 1 h tr = e1" and "probes_of 2 h tr = new"
proof -
  have a: "filter (\<lambda>e. ev_phase e = 1) e1 = e1" using assms(2) by (simp add: filter_id_conv)
  have b: "filter (\<lambda>e. ev_phase e = 1) new = []" using assms(3) by (auto simp: filter_empty_conv)
  have c: "filter (\<lambda>e. ev_phase e = 2) e1 = []" using assms(2) by (auto simp: filter_empty_conv)
  have d: "filter (\<lambda>e. ev_phase e = 2) new = new" using assms(3) by (simp add: filter_id_conv)
  show "probes_of 1 h tr = e1"
    unfolding probes_of_events assms(1) filter_append a b by simp
  show "probes_of 2 h tr = new"
    unfolding probes_of_events assms(1) filter_append c d by simp
qed

text \<open>
  What the tester does for one host of the input, read off the log and the result:
  the screening probe, then one of three outcomes (alive at screening; no other URL;
  the fallback chain, which ends at the first alive alternate or, when all of at most
  three failed, with one more probe of the last alternate).
\<close>

lemma host_outcome:
  fixes P :: "'w prober"
  assumes dist: "distinct (map fst hs)" and mem: "(h, urls) \<in> set hs"
    and rep: "rep = pick_rep_url urls"
    and cands: "cands = take 3 (filter (\<lambda>u. Some u \<noteq> rep) urls)"
    and res: "res = test_hosts_two_phase P hs w"
    and p1: "p1 = probes_of 1 h (snd (snd res))" and p2: "p2 = probes_of 2 h (snd (snd res))"
  shows "(case rep of
            None \<Rightarrow> p1 = []
          | Some r \<Rightarrow> if r = [] then p1 = [] else (\<exists>v. p1 = [Probe 1 h r v])) \<and>
    (if p1 \<noteq> [] \<and> alive (ev_verdict (hd p1))
     then p2 = [] \<and>
          fst res h = Some \<lparr>q_alive = True, q_latency = latency (ev_verdict (hd p1)),
                             q_type = type (ev_verdict (hd p1)),
                             representative_url = rep, trials = 1\<rparr>
     else if cands = []
     then p2 = [] \<and>
          fst res h = Some \<lparr>q_alive = False, q_latency = 999, q_type = ''no_fallback'',
                             representative_url = rep, trials = 1\<rparr>
     else p2 \<noteq> [] \<and> (\<forall>e\<in>set (butlast p2). \<not> alive (ev_verdict e)) \<and>
          (if length p2 \<le> length cands
           then map ev_url p2 = take (length p2) cands \<and> alive (ev_verdict (last p2)) \<and>
                fst res h = Some \<lparr>q_alive = True, q_latency = latency (ev_verdict (last p2)),
                               q_type = type (ev_verdict (last p2)),
                               representative_url = Some (ev_url (last p2)),
                               trials = 1 + length p2\<rparr>
           else map ev_url p2 = cands @ [last cands] \<and>
                fst res h = Some \<lparr>q_alive = False, q_latency = latency (ev_verdict (last p2)),
                               q_type = type (ev_verdict (last p2)),
                               representative_url = rep, trials = 1 + length cands\<rparr>))"
proof -
  define hdata where "hdata = build_host_data hs"
  define d where "d = \<lparr>all_urls = urls, rep_url = rep\<rparr>"
  define st1 where "st1 = fold (screen_host P) hdata (Map.empty, (w, []))"
  define qd where "qd = fold queue_host hdata ([], fst st1)"
  define alts where "alts = filter (\<lambda>u. Some u \<noteq> rep_url d) (all_urls d)"
  define e1 where "e1 = events_of h (snd (snd st1))"
  have rd: "rep_url d = rep" and ad: "all_urls d = urls" by (simp_all add: d_def)
  have ca: "cands = take 3 alts" by (simp add: cands alts_def rd ad)
  have ce: "(cands = []) = (alts = [])" unfolding ca by (cases alts) simp_all
  from build_host_data_entry [OF dist mem]
  have fk: "filter (\<lambda>e. fst e = h) hdata = [(h, d)]" and mo: "map_of hdata h = Some d"
    by (simp_all add: hdata_def d_def rep)
  have res_eq: "res = (if fst qd \<noteq> [] then fold (retry_host P hdata) (fst qd) (snd qd, snd st1)
                     else (snd qd, snd st1))"
    by (simp add: res test_hosts_two_phase_def Let_def hdata_def st1_def qd_def)
  note A = phase1_outcome [OF fk st1_def]
  note B = after_phase1 [OF fk mo qd_def res_eq alts_def]
  have A1: "(case rep of
            None \<Rightarrow> e1 = []
          | Some r \<Rightarrow> if r = [] then e1 = [] else (\<exists>v. e1 = [Probe 1 h r v]))"
    using A unfolding rd e1_def by (auto split: option.splits if_splits)
  have ph1: "\<forall>e\<in>set e1. ev_phase e = 1"
    using A1 by (auto split: option.splits if_splits)
  have A2: "fst st1 h = (if e1 \<noteq> [] \<and> alive (ev_verdict (hd e1))
       then Some \<lparr>q_alive = True, q_latency = latency (ev_verdict (hd e1)),
                   q_type = type (ev_verdict (hd e1)), representative_url = rep, trials = 1\<rparr>
       else None)"
    using A unfolding rd e1_def by (auto split: option.splits if_splits)
  show ?thesis
  proof (cases "e1 \<noteq> [] \<and> alive (ev_verdict (hd e1))")
    case True
    with A2 have q1: "fst st1 h = Some \<lparr>q_alive = True, q_latency = latency (ev_verdict (hd e1)),
                   q_type = type (ev_verdict (hd e1)), representative_url = rep, trials = 1\<rparr>" by simp
    with B have r: "fst res h = fst st1 h" and ev: "events_of h (snd (snd res)) = e1 @ []"
      by (simp_all add: e1_def)
    from probes_split [OF ev ph1] have pe: "p1 = e1" "p2 = []" by (simp_all add: p1 p2)
    from True r q1 A1 show ?thesis unfolding pe by simp
  next
    case False
    with A2 have q1: "fst st1 h = None" by simp
    show ?thesis
    proof (cases "alts = []")
      case True
      with B q1 have r: "fst res h = Some \<lparr>q_alive = False, q_latency = 999, q_type = ''no_fallback'',
                              representative_url = rep, trials = 1\<rparr>"
        and ev: "events_of h (snd (snd res)) = e1 @ []"
        by (simp_all add: e1_def rd)
      from probes_split [OF ev ph1] have pe: "p1 = e1" "p2 = []" by (simp_all add: p1 p2)
      from False True r A1 ce show ?thesis unfolding pe by simp
    next
      case na: False
      with B q1 obtain new where n:
        "events_of h (snd (snd res)) = events_of h (snd (snd st1)) @ new \<and> new \<noteq> [] \<and>
            (\<forall>e\<in>set new. ev_phase e = 2 \<and> ev_host e = h) \<and>
            (\<forall>e\<in>set (butlast new). \<not> alive (ev_verdict e)) \<and>
            (if length new \<le> length (take 3 alts)
             then map ev_url new = take (length new) (take 3 alts) \<and> alive (ev_verdict (last new)) \<and>
                  fst res h = Some \<lparr>q_alive = True, q_latency = latency (ev_verdict (last new)),
                               q_type = type (ev_verdict (last new)),
                               representative_url = Some (ev_url (last new)),
                               trials = 1 + length new\<rparr>
             else map ev_url new = take 3 alts @ [last (take 3 alts)] \<and>
                  fst res h = Some \<lparr>q_alive = False, q_latency = latency (ev_verdict (last new)),
                               q_type = type (ev_verdict (last new)),
                               representative_url = rep_url d, trials = 1 + length (take 3 alts)\<rparr>)"
        by auto
      from n have ev: "events_of h (snd (snd res)) = e1 @ new" by (simp add: e1_def)
      from n have n2: "\<forall>e\<in>set new. ev_phase e = 2 \<and> ev_host e = h" by blast
      from probes_split [OF ev ph1 n2] have pe: "p1 = e1" "p2 = new" by (simp_all add: p1 p2)
      from n have rest: "new \<noteq> [] \<and> (\<forall>e\<in>set (butlast new). \<not> alive (ev_verdict e)) \<and>
            (if length new \<le> length cands
             then map ev_url new = take (length new) cands \<and> alive (ev_verdict (last new)) \<and>
                  fst res h = Some \<lparr>q_alive = True, q_latency = latency (ev_verdict (last new)),
                               q_type = type (ev_verdict (last new)),
                               representative_url = Some (ev_url (last new)),
                               trials = 1 + length new\<rparr>
             else map ev_url new = cands @ [last cands] \<and>
                  fst res h = Some \<lparr>q_alive = False, q_latency = latency (ev_verdict (last new)),
                               q_type = type (ev_verdict (last new)),
                               representative_url = rep, trials = 1 + length cands\<rparr>)"
        unfolding ca rd by blast
      from na ce have cne: "cands \<noteq> []" by simp
      from A1 rest show ?thesis
        unfolding pe if_not_P [OF False] if_not_P [OF cne] by (rule conjI)
    qed
  qed
qed

lemma entered_phase2:
  fixes P :: "'w prober"
  assumes dist: "distinct (map fst hs)" and mem: "(h, urls) \<in> set hs"
    and rep: "rep = pick_rep_url urls"
    and cands: "cands = take 3 (filter (\<lambda>u. Some u \<noteq> rep) urls)"
    and res: "res = test_hosts_two_phase P hs w"
    and p2: "p2 = probes_of 2 h (snd (snd res))"
    and ne: "p2 \<noteq> []"
  shows "cands \<noteq> [] \<and> (\<forall>e\<in>set (butlast p2). \<not> alive (ev_verdict e)) \<and>
          (if length p2 \<le> length cands
           then map ev_url p2 = take (length p2) cands \<and> alive (ev_verdict (last p2)) \<and>
                fst res h = Some \<lparr>q_alive = True, q_latency = latency (ev_verdict (last p2)),
                               q_type = type (ev_verdict (last p2)),
                               representative_url = Some (ev_url (last p2)),
                               trials = 1 + length p2\<rparr>
           else map ev_url p2 = cands @ [last cands] \<and>
                fst res h = Some \<lparr>q_alive = False, q_latency = latency (ev_verdict (last p2)),
                               q_type = type (ev_verdict (last p2)),
                               representative_url = rep, trials = 1 + length cands\<rparr>)"
proof -
  define p1 where "p1 = probes_of 1 h (snd (snd res))"
  note H = host_outcome [OF dist mem rep cands res p1_def p2, THEN conjunct2]
  have a: "\<not> (p1 \<noteq> [] \<and> alive (ev_verdict (hd p1)))"
  proof
    assume "p1 \<noteq> [] \<and> alive (ev_verdict (hd p1))"
    with H have "p2 = []" by simp
    with ne show False by simp
  qed
  have b: "cands \<noteq> []"
  proof
    assume "cands = []"
    with H a have "p2 = []" by simp
    with ne show False by simp
  qed
  from H have "p2 \<noteq> [] \<and> (\<forall>e\<in>set (butlast p2). \<not> alive (ev_verdict e)) \<and>
          (if length p2 \<le> length cands
           then map ev_url p2 = take (length p2) cands \<and> alive (ev_verdict (last p2)) \<and>
                fst res h = Some \<lparr>q_alive = True, q_latency = latency (ev_verdict (last p2)),
                               q_type = type (ev_verdict (last p2)),
                               representative_url = Some (ev_url (last p2)),
                               trials = 1 + length p2\<rparr>
           else map ev_url p2 = cands @ [last cands] \<and>
                fst res h = Some \<lparr>q_alive = False, q_latency = latency (ev_verdict (last p2)),
                               q_type = type (ev_verdict (last p2)),
                               representative_url = rep, trials = 1 + length cands\<rparr>)"
    unfolding if_not_P [OF a] if_not_P [OF b] .
  then have "(\<forall>e\<in>set (butlast p2). \<not> alive (ev_verdict e)) \<and>
          (if length p2 \<le> length cands
           then map ev_url p2 = take (length p2) cands \<and> alive (ev_verdict (last p2)) \<and>
                fst res h = Some \<lparr>q_alive = True, q_latency = latency (ev_verdict (last p2)),
                               q_type = type (ev_verdict (last p2)),
                               representative_url = Some (ev_url (last p2)),
                               trials = 1 + length p2\<rparr>
           else map ev_url p2 = cands @ [last cands] \<and>
                fst res h = Some \<lparr>q_alive = False, q_latency = latency (ev_verdict (last p2)),
                               q_type = type (ev_verdict (last p2)),
                               representative_url = rep, trials = 1 + length cands\<rparr>)"
    by (rule conjunct2)
  with b show ?thesis by (rule conjI)
qed

lemma cands_props:
  assumes "cands = take 3 (filter (\<lambda>u. Some u \<noteq> rep) urls)"
  shows "length cands \<le> 3" and "set cands \<subseteq> {u \<in> set urls. Some u \<noteq> rep}"
proof -
  show "length cands \<le> 3" by (simp add: assms)
  have "set cands \<subseteq> set (filter (\<lambda>u. Some u \<noteq> rep) urls)"
    unfolding assms by (rule set_take_subset)
  then show "set cands \<subseteq> {u \<in> set urls. Some u \<noteq> rep}" by auto
qed

lemma last_url:
  assumes "p2 \<noteq> []"
  shows "ev_url (last p2) = last (map ev_url p2)"
  using assms by (simp add: last_map)

lemma fold_invariant:
  assumes "\<And>e s. I s \<Longrightarrow> I (f e s)" and "I s"
  shows "I (fold f xs s)"
  using assms(2) by (induction xs arbitrary: s) (simp_all add: assms(1))

lemma run_probe_faithful:
  assumes "faithful P w0 s"
  shows "faithful P w0 (snd (run_probe P ph h u s))"
proof -
  obtain v w1 where P: "P u (fst s) = (v, w1)" by (cases "P u (fst s)")
  then have r: "run_probe P ph h u s = (v, (w1, snd s @ [Probe ph h u v]))"
    by (simp add: run_probe_def)
  from assms have "replay P (map ev_url (snd s)) w0 = (map ev_verdict (snd s), fst s)"
    by (simp add: faithful_def)
  from replay_snoc [OF this P] show ?thesis unfolding r by (simp add: faithful_def)
qed

lemma screen_host_faithful:
  assumes "faithful P w0 (snd st)"
  shows "faithful P w0 (snd (screen_host P e st))"
proof -
  obtain h d where e: "e = (h, d)" by (cases e)
  obtain hq s where st: "st = (hq, s)" by (cases st)
  from assms have s: "faithful P w0 s" by (simp add: st)
  show ?thesis
  proof (cases "rep_url d")
    case None
    with s show ?thesis by (simp add: e st)
  next
    case (Some r)
    show ?thesis
    proof (cases "r = []")
      case True
      with Some s show ?thesis by (simp add: e st)
    next
      case False
      with Some have "snd (screen_host P e st) = snd (run_probe P 1 h r s)"
        by (simp add: e st split: prod.splits)
      with run_probe_faithful [OF s] show ?thesis by simp
    qed
  qed
qed

lemma fallback_loop_faithful:
  assumes "faithful P w0 s"
  shows "faithful P w0 (snd (fallback_loop P h cs i s))"
  using assms
proof (induction cs arbitrary: i s)
  case Nil
  then show ?case by simp
next
  case (Cons u rest)
  obtain res s1 where r: "run_probe P 2 h u s = (res, s1)" by (cases "run_probe P 2 h u s")
  with run_probe_faithful [OF Cons.prems, of 2 h u] have s1: "faithful P w0 s1" by simp
  show ?case
  proof (cases "alive res")
    case True
    with r s1 show ?thesis by simp
  next
    case False
    with r Cons.IH [OF s1] show ?thesis by simp
  qed
qed

lemma fallback_test_faithful:
  assumes "faithful P w0 s"
  shows "faithful P w0 (snd (fallback_test P (h, cs) s))"
proof -
  obtain r s1 where l: "fallback_loop P h cs 0 s = (r, s1)" by (cases "fallback_loop P h cs 0 s")
  with fallback_loop_faithful [OF assms, of h cs 0] have s1: "faithful P w0 s1" by simp
  show ?thesis
  proof (cases r)
    case (Some x)
    with l s1 show ?thesis by (cases x) (simp add: fallback_test_def)
  next
    case None
    show ?thesis
    proof (cases "cs = []")
      case True
      with None l s1 show ?thesis by (simp add: fallback_test_def)
    next
      case False
      with None l have "snd (fallback_test P (h, cs) s) = snd (run_probe P 2 h (last cs) s1)"
        by (simp add: fallback_test_def split: prod.splits)
      with run_probe_faithful [OF s1] show ?thesis by simp
    qed
  qed
qed

lemma retry_host_faithful:
  assumes "faithful P w0 (snd st)"
  shows "faithful P w0 (snd (retry_host P hdata e st))"
proof -
  obtain h cs where e: "e = (h, cs)" by (cases e)
  obtain hq s where st: "st = (hq, s)" by (cases st)
  from assms have s: "faithful P w0 s" by (simp add: st)
  have "snd (retry_host P hdata e st) = snd (fallback_test P (h, cs) s)"
    by (simp add: e st Let_def split: prod.splits)
  with fallback_test_faithful [OF s] show ?thesis by simp
qed

text \<open>
  The log is that of the prober: the verdicts of the log are what \<open>P\<close> answers on the
  logged URLs, in the logged order, from the world the tester started in, and the
  tester leaves the world as these calls leave it.
\<close>

lemma test_hosts_two_phase_faithful:
  "replay P (map ev_url (snd (snd (test_hosts_two_phase P hs w)))) w =
     (map ev_verdict (snd (snd (test_hosts_two_phase P hs w))), fst (snd (test_hosts_two_phase P hs w)))"
proof -
  define hdata where "hdata = build_host_data hs"
  define st1 where "st1 = fold (screen_host P) hdata (Map.empty, (w, []))"
  define qd where "qd = fold queue_host hdata ([], fst st1)"
  define res where "res = test_hosts_two_phase P hs w"
  have res_eq: "res = (if fst qd \<noteq> [] then fold (retry_host P hdata) (fst qd) (snd qd, snd st1)
                     else (snd qd, snd st1))"
    by (simp add: res_def test_hosts_two_phase_def Let_def hdata_def st1_def qd_def)
  have "faithful P w (snd (Map.empty :: string \<rightharpoonup> quality, (w, [] :: event list)))"
    by (simp add: faithful_def)
  then have "faithful P w (snd (fold (screen_host P) hdata (Map.empty, (w, []))))"
    by (rule fold_invariant [where I = "\<lambda>st. faithful P w (snd st)", rotated]) (rule screen_host_faithful)
  then have f1: "faithful P w (snd st1)" by (simp add: st1_def)
  then have f1': "faithful P w (snd (snd qd, snd st1))" by simp
  have "faithful P w (snd (fold (retry_host P hdata) (fst qd) (snd qd, snd st1)))"
    using f1' by (rule fold_invariant [where I = "\<lambda>st. faithful P w (snd st)", rotated])
      (rule retry_host_faithful)
  with f1 have "faithful P w (snd res)" unfolding res_eq by simp
  then show ?thesis by (simp add: faithful_def res_def)
qed

lemma absent_host:
  fixes P :: "'w prober"
  assumes "h \<notin> fst ` set hs" and res: "res = test_hosts_two_phase P hs w"
  shows "fst res h = None"
proof -
  define hdata where "hdata = build_host_data hs"
  define st1 where "st1 = fold (screen_host P) hdata (Map.empty, (w, []))"
  define qd where "qd = fold queue_host hdata ([], fst st1)"
  have res_eq: "res = (if fst qd \<noteq> [] then fold (retry_host P hdata) (fst qd) (snd qd, snd st1)
                     else (snd qd, snd st1))"
    by (simp add: res test_hosts_two_phase_def Let_def hdata_def st1_def qd_def)
  have "map fst hdata = map fst hs"
    by (simp add: hdata_def build_host_data_def case_prod_beta)
  then have "fst ` set hdata = fst ` set hs" by (metis set_map)
  with assms(1) have fk: "filter (\<lambda>e. fst e = h) hdata = []"
    by (auto simp: filter_empty_conv)
  let ?obs1 = "\<lambda>st :: (string \<rightharpoonup> quality) \<times> ('w \<times> event list).
      (fst st h, events_of h (snd (snd st)))"
  have skip1: "\<And>e st. fst e \<noteq> h \<Longrightarrow> ?obs1 (screen_host P e st) = ?obs1 st"
    by (rule screen_host_other)
  from fold_key_none [of h hdata ?obs1 "screen_host P" "(Map.empty, (w, []))", OF fk skip1]
  have a: "fst st1 h = None" by (simp add: st1_def)
  let ?obs2 = "\<lambda>st :: (string \<times> string list) list \<times> (string \<rightharpoonup> quality).
      (filter (\<lambda>x. fst x = h) (fst st), snd st h)"
  have skip2: "\<And>e st. fst e \<noteq> h \<Longrightarrow> ?obs2 (queue_host e st) = ?obs2 st"
    by (rule queue_host_other)
  from fold_key_none [of h hdata ?obs2 queue_host "([], fst st1)", OF fk skip2]
  have b: "filter (\<lambda>x. fst x = h) (fst qd) = []" and c: "snd qd h = fst st1 h"
    by (simp_all add: qd_def)
  from phase2_none [OF b res_eq] a c show ?thesis by simp
qed

text \<open>The probes made for one host are its screening probe and then its fallback probes.\<close>

lemma host_events:
  fixes P :: "'w prober"
  assumes dist: "distinct (map fst hs)" and mem: "(h, urls) \<in> set hs"
    and res: "res = test_hosts_two_phase P hs w"
    and p1: "p1 = probes_of 1 h (snd (snd res))" and p2: "p2 = probes_of 2 h (snd (snd res))"
  shows "events_of h (snd (snd res)) = p1 @ p2"
proof -
  define rep where "rep = pick_rep_url urls"
  define hdata where "hdata = build_host_data hs"
  define d where "d = \<lparr>all_urls = urls, rep_url = rep\<rparr>"
  define st1 where "st1 = fold (screen_host P) hdata (Map.empty, (w, []))"
  define qd where "qd = fold queue_host hdata ([], fst st1)"
  define alts where "alts = filter (\<lambda>u. Some u \<noteq> rep_url d) (all_urls d)"
  define e1 where "e1 = events_of h (snd (snd st1))"
  have rd: "rep_url d = rep" and ad: "all_urls d = urls" by (simp_all add: d_def)
  from build_host_data_entry [OF dist mem]
  have fk: "filter (\<lambda>e. fst e = h) hdata = [(h, d)]" and mo: "map_of hdata h = Some d"
    by (simp_all add: hdata_def d_def rep_def)
  have res_eq: "res = (if fst qd \<noteq> [] then fold (retry_host P hdata) (fst qd) (snd qd, snd st1)
                     else (snd qd, snd st1))"
    by (simp add: res test_hosts_two_phase_def Let_def hdata_def st1_def qd_def)
  note A = phase1_outcome [OF fk st1_def]
  note B = after_phase1 [OF fk mo qd_def res_eq alts_def]
  have A1: "(case rep of
            None \<Rightarrow> e1 = []
          | Some r \<Rightarrow> if r = [] then e1 = [] else (\<exists>v. e1 = [Probe 1 h r v]))"
    using A unfolding rd e1_def by (auto split: option.splits if_splits)
  have ph1: "\<forall>e\<in>set e1. ev_phase e = 1"
    using A1 by (auto split: option.splits if_splits)
  have "\<exists>new. events_of h (snd (snd res)) = e1 @ new \<and> (\<forall>e\<in>set new. ev_phase e = 2 \<and> ev_host e = h)"
  proof (cases "fst st1 h \<noteq> None")
    case True
    with B have "events_of h (snd (snd res)) = e1 @ []" by (simp add: e1_def)
    then show ?thesis by (intro exI [of _ "[]"]) simp
  next
    case False
    note none = this
    show ?thesis
    proof (cases "alts = []")
      case True
      with B none have "events_of h (snd (snd res)) = e1 @ []" by (simp add: e1_def)
      then show ?thesis by (intro exI [of _ "[]"]) simp
    next
      case False
      with B none obtain new where
        "events_of h (snd (snd res)) = events_of h (snd (snd st1)) @ new \<and> new \<noteq> [] \<and>
            (\<forall>e\<in>set new. ev_phase e = 2 \<and> ev_host e = h) \<and>
            (\<forall>e\<in>set (butlast new). \<not> alive (ev_verdict e)) \<and>
            (if length new \<le> length (take 3 alts)
             then map ev_url new = take (length new) (take 3 alts) \<and> alive (ev_verdict (last new)) \<and>
                  fst res h = Some \<lparr>q_alive = True, q_latency = latency (ev_verdict (last new)),
                               q_type = type (ev_verdict (last new)),
                               representative_url = Some (ev_url (last new)),
                               trials = 1 + length new\<rparr>
             else map ev_url new = take 3 alts @ [last (take 3 alts)] \<and>
                  fst res h = Some \<lparr>q_alive = False, q_latency = latency (ev_verdict (last new)),
                               q_type = type (ev_verdict (last new)),
                               representative_url = rep_url d, trials = 1 + length (take 3 alts)\<rparr>)"
        by auto
      then have "events_of h (snd (snd res)) = e1 @ new"
        and "\<forall>e\<in>set new. ev_phase e = 2 \<and> ev_host e = h"
        unfolding e1_def by blast+
      then show ?thesis by blast
    qed
  qed
  then obtain new where ev: "events_of h (snd (snd res)) = e1 @ new"
    and n2: "\<forall>e\<in>set new. ev_phase e = 2 \<and> ev_host e = h" by blast
  from probes_split [OF ev ph1 n2] have "p1 = e1" "p2 = new" by (simp_all add: p1 p2)
  with ev show ?thesis by simp
qed

lemma example_reps:
  "pick_rep_url [''http://a.test/1.m3u8''] = Some ''http://a.test/1.m3u8''"
  "pick_rep_url [''http://b.test/1.m3u8'', ''http://b.test/2'', ''http://b.test/3''] = Some ''http://b.test/1.m3u8''"
  "pick_rep_url [''http://c.test/1.m3u8''] = Some ''http://c.test/1.m3u8''"
  "pick_rep_url [''http://d.test/1.m3u8'', ''http://d.test/2''] = Some ''http://d.test/1.m3u8''"
  "pick_rep_url [''http://e.test/1.m3u8'', ''http://e.test/2'', ''http://e.test/3'',
                       ''http://e.test/4'', ''http://e.test/5''] = Some ''http://e.test/1.m3u8''"
  "pick_rep_url [] = None"
  by (simp_all add: pick_rep_url_def endswith_any_def endswith_def HLS_EXTENSIONS_def)

lemma example_probes:
  "scripted_prober up_example ''http://a.test/1.m3u8'' n = (live n, n + 1)"
  "scripted_prober up_example ''http://b.test/3'' n = (live n, n + 1)"
  "scripted_prober up_example ''http://b.test/1.m3u8'' n = (dead n, n + 1)"
  "scripted_prober up_example ''http://b.test/2'' n = (dead n, n + 1)"
  "scripted_prober up_example ''http://c.test/1.m3u8'' n = (dead n, n + 1)"
  "scripted_prober up_example ''http://d.test/1.m3u8'' n = (dead n, n + 1)"
  "scripted_prober up_example ''http://d.test/2'' n = (dead n, n + 1)"
  "scripted_prober up_example ''http://e.test/1.m3u8'' n = (dead n, n + 1)"
  "scripted_prober up_example ''http://e.test/2'' n = (dead n, n + 1)"
  "scripted_prober up_example ''http://e.test/3'' n = (dead n, n + 1)"
  "scripted_prober up_example ''http://e.test/4'' n = (dead n, n + 1)"
  by (simp_all add: scripted_prober_def up_example_def dead_def live_def)

lemma verdict_fields:
  "alive (dead n) = False" "alive (live n) = True"
  "latency (dead n) = real n / 10" "latency (live n) = real n / 10"
  "type (dead n) = ''dead''" "type (live n) = ''hls''"
  by (simp_all add: dead_def live_def)

lemma example_log:
  "snd (test_hosts_two_phase (scripted_prober up_example) hosts_example 0) =
     (13, [Probe 1 ''a.test:80'' ''http://a.test/1.m3u8'' (live 0),
           Probe 1 ''b.test:80'' ''http://b.test/1.m3u8'' (dead 1),
           Probe 1 ''c.test:80'' ''http://c.test/1.m3u8'' (dead 2),
           Probe 1 ''d.test:80'' ''http://d.test/1.m3u8'' (dead 3),
           Probe 1 ''e.test:80'' ''http://e.test/1.m3u8'' (dead 4),
           Probe 2 ''b.test:80'' ''http://b.test/2'' (dead 5),
           Probe 2 ''b.test:80'' ''http://b.test/3'' (live 6),
           Probe 2 ''d.test:80'' ''http://d.test/2'' (dead 7),
           Probe 2 ''d.test:80'' ''http://d.test/2'' (dead 8),
           Probe 2 ''e.test:80'' ''http://e.test/2'' (dead 9),
           Probe 2 ''e.test:80'' ''http://e.test/3'' (dead 10),
           Probe 2 ''e.test:80'' ''http://e.test/4'' (dead 11),
           Probe 2 ''e.test:80'' ''http://e.test/4'' (dead 12)])"
  by (simp add: test_hosts_two_phase_def hosts_example_def build_host_data_def example_reps
      run_probe_def example_probes verdict_fields fallback_test_def Let_def eval_nat_numeral)

lemma example_hosts:
  "distinct (map fst hosts_example)"
  "(''a.test:80'', [''http://a.test/1.m3u8'']) \<in> set hosts_example"
  "(''b.test:80'', [''http://b.test/1.m3u8'', ''http://b.test/2'', ''http://b.test/3'']) \<in> set hosts_example"
  "(''c.test:80'', [''http://c.test/1.m3u8'']) \<in> set hosts_example"
  "(''d.test:80'', [''http://d.test/1.m3u8'', ''http://d.test/2'']) \<in> set hosts_example"
  "(''e.test:80'', [''http://e.test/1.m3u8'', ''http://e.test/2'', ''http://e.test/3'',
                    ''http://e.test/4'', ''http://e.test/5'']) \<in> set hosts_example"
  "(''f.test:80'', []) \<in> set hosts_example"
  by (simp_all add: hosts_example_def)

lemma example_fallback_probes:
  "probes_of 2 ''b.test:80'' (snd (snd (test_hosts_two_phase (scripted_prober up_example) hosts_example 0))) =
     [Probe 2 ''b.test:80'' ''http://b.test/2'' (dead 5),
      Probe 2 ''b.test:80'' ''http://b.test/3'' (live 6)]"
  "probes_of 2 ''c.test:80'' (snd (snd (test_hosts_two_phase (scripted_prober up_example) hosts_example 0))) = []"
  "probes_of 2 ''d.test:80'' (snd (snd (test_hosts_two_phase (scripted_prober up_example) hosts_example 0))) =
     [Probe 2 ''d.test:80'' ''http://d.test/2'' (dead 7),
      Probe 2 ''d.test:80'' ''http://d.test/2'' (dead 8)]"
  "probes_of 2 ''e.test:80'' (snd (snd (test_hosts_two_phase (scripted_prober up_example) hosts_example 0))) =
     [Probe 2 ''e.test:80'' ''http://e.test/2'' (dead 9),
      Probe 2 ''e.test:80'' ''http://e.test/3'' (dead 10),
      Probe 2 ''e.test:80'' ''http://e.test/4'' (dead 11),
      Probe 2 ''e.test:80'' ''http://e.test/4'' (dead 12)]"
  "probes_of 1 ''c.test:80'' (snd (snd (test_hosts_two_phase (scripted_prober up_example) hosts_example 0))) =
     [Probe 1 ''c.test:80'' ''http://c.test/1.m3u8'' (dead 2)]"
  "probes_of 1 ''e.test:80'' (snd (snd (test_hosts_two_phase (scripted_prober up_example) hosts_example 0))) =
     [Probe 1 ''e.test:80'' ''http://e.test/1.m3u8'' (dead 4)]"
  "probes_of 1 ''f.test:80'' (snd (snd (test_hosts_two_phase (scripted_prober up_example) hosts_example 0))) = []"
  "probes_of 2 ''f.test:80'' (snd (snd (test_hosts_two_phase (scripted_prober up_example) hosts_example 0))) = []"
  by (simp_all add: example_log probes_of_def)

lemma example_records:
  "fst (test_hosts_two_phase (scripted_prober up_example) hosts_example 0) ''d.test:80'' =
     Some \<lparr>q_alive = False, q_latency = 8 / 10, q_type = ''dead'',
           representative_url = Some ''http://d.test/1.m3u8'', trials = 2\<rparr>"
  "fst (test_hosts_two_phase (scripted_prober up_example) hosts_example 0) ''e.test:80'' =
     Some \<lparr>q_alive = False, q_latency = 12 / 10, q_type = ''dead'',
           representative_url = Some ''http://e.test/1.m3u8'', trials = 4\<rparr>"
  by (simp_all add: test_hosts_two_phase_def hosts_example_def build_host_data_def example_reps
      run_probe_def example_probes verdict_fields fallback_test_def Let_def)

text \<open>
  Claim C1, as the code has it. For an endpoint that enters phase 2 and whose
  alternates (at most three) all fail their probes, the fallback probes are those of
  the alternates, in order, followed by \<^emph>\<open>one more probe of the last alternate\<close>; the
  record has \<^verbatim>\<open>alive=False\<close>, the latency and the type of the verdict of that
  additional probe, the phase-1 representative, and \<^verbatim>\<open>trials\<close> equal to 1 plus the
  number of alternates: the additional probe is not counted. The verdicts of the log
  are those of the prober.
\<close>

theorem all_alternates_failed_record:
  fixes P :: "'w prober"
  assumes dist: "distinct (map fst hs)" and mem: "(h, urls) \<in> set hs"
    and rep: "rep = pick_rep_url urls"
    and cands: "cands = take 3 (filter (\<lambda>u. Some u \<noteq> rep) urls)"
    and res: "res = test_hosts_two_phase P hs w"
    and p2: "p2 = probes_of 2 h (snd (snd res))"
    and ne: "p2 \<noteq> []"
    and fail: "\<forall>e\<in>set (take (length cands) p2). \<not> alive (ev_verdict e)"
  shows "map ev_url p2 = cands @ [last cands] \<and> length p2 = length cands + 1 \<and>
     cands \<noteq> [] \<and> length cands \<le> 3 \<and>
     fst res h = Some \<lparr>q_alive = False, q_latency = latency (ev_verdict (last p2)),
                        q_type = type (ev_verdict (last p2)),
                        representative_url = rep, trials = 1 + length cands\<rparr> \<and>
     replay P (map ev_url (snd (snd res))) w = (map ev_verdict (snd (snd res)), fst (snd res))"
proof -
  note E = entered_phase2 [OF dist mem rep cands res p2 ne]
  from E have cne: "cands \<noteq> []" by (rule conjunct1)
  have gt: "\<not> length p2 \<le> length cands"
  proof
    assume le: "length p2 \<le> length cands"
    from E [THEN conjunct2, THEN conjunct2, unfolded if_P [OF le]]
    have "alive (ev_verdict (last p2))" by blast
    moreover from le have "take (length cands) p2 = p2" by simp
    with ne have "last p2 \<in> set (take (length cands) p2)" by simp
    ultimately show False using fail by blast
  qed
  note F = E [THEN conjunct2, THEN conjunct2, unfolded if_not_P [OF gt]]
  from F have u: "map ev_url p2 = cands @ [last cands]" by (rule conjunct1)
  from F have q: "fst res h = Some \<lparr>q_alive = False, q_latency = latency (ev_verdict (last p2)),
                               q_type = type (ev_verdict (last p2)),
                               representative_url = rep, trials = 1 + length cands\<rparr>"
    by (rule conjunct2)
  from u have "length (map ev_url p2) = length (cands @ [last cands])" by simp
  then have l: "length p2 = length cands + 1" by simp
  have rp: "replay P (map ev_url (snd (snd res))) w = (map ev_verdict (snd (snd res)), fst (snd res))"
    unfolding res by (rule test_hosts_two_phase_faithful)
  from u l cne cands_props(1) [OF cands] q rp show ?thesis by blast
qed

theorem all_alternates_failed_record_witness:
  "probes_of 2 ''d.test:80'' (snd (snd (test_hosts_two_phase (scripted_prober up_example) hosts_example 0))) =
     [Probe 2 ''d.test:80'' ''http://d.test/2'' (dead 7),
      Probe 2 ''d.test:80'' ''http://d.test/2'' (dead 8)] \<and>
   fst (test_hosts_two_phase (scripted_prober up_example) hosts_example 0) ''d.test:80'' =
     Some \<lparr>q_alive = False, q_latency = 8 / 10, q_type = ''dead'',
           representative_url = Some ''http://d.test/1.m3u8'', trials = 2\<rparr>"
proof -
  let ?res = "test_hosts_two_phase (scripted_prober up_example) hosts_example 0"
  let ?urls = "[''http://d.test/1.m3u8'', ''http://d.test/2'']"
  let ?cands = "take 3 (filter (\<lambda>u. Some u \<noteq> pick_rep_url ?urls) ?urls)"
  have c: "?cands = [''http://d.test/2'']" by (simp add: example_reps)
  have ne: "probes_of 2 ''d.test:80'' (snd (snd ?res)) \<noteq> []"
    by (simp add: example_fallback_probes)
  have fail: "\<forall>e\<in>set (take (length ?cands) (probes_of 2 ''d.test:80'' (snd (snd ?res)))).
      \<not> alive (ev_verdict e)"
    unfolding c by (simp add: example_fallback_probes verdict_fields)
  note T = all_alternates_failed_record [OF example_hosts(1) example_hosts(5) refl refl refl refl ne fail]
  from T [THEN conjunct2, THEN conjunct2, THEN conjunct2, THEN conjunct2, THEN conjunct1]
  have "fst ?res ''d.test:80'' =
     Some \<lparr>q_alive = False, q_latency = 8 / 10, q_type = ''dead'',
           representative_url = Some ''http://d.test/1.m3u8'', trials = 2\<rparr>"
    unfolding c by (simp add: example_fallback_probes verdict_fields example_reps)
  with example_fallback_probes(3) show ?thesis by blast
qed

text \<open>
  The claim as written fails: the endpoint \<open>d\<close> has one alternate, which fails; it is
  probed twice, and the record has the latency of the second probe (0.8 s), which is
  not the verdict of the per-alternate probe (0.7 s).
\<close>

theorem additional_probe_of_last_alternate:
  "take 3 (filter (\<lambda>u. Some u \<noteq> pick_rep_url [''http://d.test/1.m3u8'', ''http://d.test/2''])
     [''http://d.test/1.m3u8'', ''http://d.test/2'']) = [''http://d.test/2''] \<and>
   probes_of 2 ''d.test:80'' (snd (snd (test_hosts_two_phase (scripted_prober up_example) hosts_example 0))) =
     [Probe 2 ''d.test:80'' ''http://d.test/2'' (dead 7),
      Probe 2 ''d.test:80'' ''http://d.test/2'' (dead 8)] \<and>
   latency (dead 7) = 7 / 10 \<and> latency (dead 8) = 8 / 10 \<and>
   fst (test_hosts_two_phase (scripted_prober up_example) hosts_example 0) ''d.test:80'' =
     Some \<lparr>q_alive = False, q_latency = 8 / 10, q_type = ''dead'',
           representative_url = Some ''http://d.test/1.m3u8'', trials = 2\<rparr>"
  by (simp add: example_fallback_probes example_records example_reps verdict_fields)

text \<open>
  Claim C2, as the code has it. At most 3 alternates are selected, none of them the
  representative; every fallback probe is on one of them, so at most 3 distinct
  alternate URLs are probed. An endpoint enters phase 2 exactly when it has an
  alternate and no screening probe of it was alive. The number of fallback probe
  invocations is at most the number of alternates plus one (\<^emph>\<open>at most 4\<close>), every probe
  but the last failed, and when there is one probe more than alternates, it repeats
  the last alternate. The verdicts of the log are those of the prober.
\<close>

theorem fallback_probe_bound:
  fixes P :: "'w prober"
  assumes dist: "distinct (map fst hs)" and mem: "(h, urls) \<in> set hs"
    and rep: "rep = pick_rep_url urls"
    and cands: "cands = take 3 (filter (\<lambda>u. Some u \<noteq> rep) urls)"
    and res: "res = test_hosts_two_phase P hs w"
    and p1: "p1 = probes_of 1 h (snd (snd res))"
    and p2: "p2 = probes_of 2 h (snd (snd res))"
  shows "length cands \<le> 3 \<and> set cands \<subseteq> {u \<in> set urls. Some u \<noteq> rep} \<and>
     ev_url ` set p2 \<subseteq> set cands \<and> card (ev_url ` set p2) \<le> 3 \<and>
     length p2 \<le> length cands + 1 \<and> length p2 \<le> 4 \<and>
     (\<forall>e\<in>set (butlast p2). \<not> alive (ev_verdict e)) \<and>
     (length cands < length p2 \<longrightarrow> map ev_url p2 = cands @ [last cands]) \<and>
     (length p2 \<le> length cands \<longrightarrow> map ev_url p2 = take (length p2) cands) \<and>
     (p2 \<noteq> [] \<longleftrightarrow> cands \<noteq> [] \<and> (\<forall>e\<in>set p1. \<not> alive (ev_verdict e))) \<and>
     replay P (map ev_url (snd (snd res))) w = (map ev_verdict (snd (snd res)), fst (snd res))"
proof -
  note c3 = cands_props(1) [OF cands]
  note cs = cands_props(2) [OF cands]
  have main: "ev_url ` set p2 \<subseteq> set cands \<and> length p2 \<le> length cands + 1 \<and>
     (\<forall>e\<in>set (butlast p2). \<not> alive (ev_verdict e)) \<and>
     (length cands < length p2 \<longrightarrow> map ev_url p2 = cands @ [last cands]) \<and>
     (length p2 \<le> length cands \<longrightarrow> map ev_url p2 = take (length p2) cands)"
  proof (cases "p2 = []")
    case True
    then show ?thesis by simp
  next
    case False
    note E = entered_phase2 [OF dist mem rep cands res p2 False]
    from E have cne: "cands \<noteq> []" by (rule conjunct1)
    from E have bl: "\<forall>e\<in>set (butlast p2). \<not> alive (ev_verdict e)" by blast
    show ?thesis
    proof (cases "length p2 \<le> length cands")
      case True
      from E [THEN conjunct2, THEN conjunct2, unfolded if_P [OF True]]
      have u: "map ev_url p2 = take (length p2) cands" by (rule conjunct1)
      then have "set (map ev_url p2) \<subseteq> set cands" by (simp add: set_take_subset)
      then have "ev_url ` set p2 \<subseteq> set cands" by simp
      with True bl u show ?thesis by simp
    next
      case False
      from E [THEN conjunct2, THEN conjunct2, unfolded if_not_P [OF False]]
      have u: "map ev_url p2 = cands @ [last cands]" by (rule conjunct1)
      then have "set (map ev_url p2) = set (cands @ [last cands])" by simp
      with cne have "ev_url ` set p2 \<subseteq> set cands" by auto
      moreover from u have "length (map ev_url p2) = length (cands @ [last cands])" by simp
      then have "length p2 = length cands + 1" by simp
      ultimately show ?thesis using bl u False by simp
    qed
  qed
  then have sub: "ev_url ` set p2 \<subseteq> set cands" by (rule conjunct1)
  have "card (ev_url ` set p2) \<le> card (set cands)" using sub by (simp add: card_mono)
  also have "\<dots> \<le> length cands" by (rule card_length)
  finally have cd: "card (ev_url ` set p2) \<le> 3" using c3 by simp
  from main have "length p2 \<le> length cands + 1" by blast
  with c3 have l4: "length p2 \<le> 4" by simp
  note H = host_outcome [OF dist mem rep cands res p1 p2]
  have enter: "p2 \<noteq> [] \<longleftrightarrow> cands \<noteq> [] \<and> (\<forall>e\<in>set p1. \<not> alive (ev_verdict e))"
  proof (cases "p1 \<noteq> [] \<and> alive (ev_verdict (hd p1))")
    case True
    from H [THEN conjunct2, unfolded if_P [OF True]] have "p2 = []" by (rule conjunct1)
    moreover from True have "\<exists>e\<in>set p1. alive (ev_verdict e)" by (cases p1) auto
    ultimately show ?thesis by blast
  next
    case a: False
    from H [THEN conjunct1] have "p1 = [] \<or> (\<exists>e. p1 = [e])"
      by (auto split: option.splits if_splits)
    with a have nf: "\<forall>e\<in>set p1. \<not> alive (ev_verdict e)" by auto
    show ?thesis
    proof (cases "cands = []")
      case True
      from H [THEN conjunct2, unfolded if_not_P [OF a] if_P [OF True]] have "p2 = []"
        by (rule conjunct1)
      with True show ?thesis by simp
    next
      case False
      from H [THEN conjunct2, unfolded if_not_P [OF a] if_not_P [OF False]] have "p2 \<noteq> []"
        by (rule conjunct1)
      with False nf show ?thesis by simp
    qed
  qed
  have rp: "replay P (map ev_url (snd (snd res))) w = (map ev_verdict (snd (snd res)), fst (snd res))"
    unfolding res by (rule test_hosts_two_phase_faithful)
  from c3 cs main cd l4 enter rp show ?thesis by blast
qed

theorem fallback_probe_bound_witness:
  "take 3 (filter (\<lambda>u. Some u \<noteq> pick_rep_url [''http://e.test/1.m3u8'', ''http://e.test/2'',
       ''http://e.test/3'', ''http://e.test/4'', ''http://e.test/5''])
     [''http://e.test/1.m3u8'', ''http://e.test/2'', ''http://e.test/3'', ''http://e.test/4'',
      ''http://e.test/5'']) = [''http://e.test/2'', ''http://e.test/3'', ''http://e.test/4''] \<and>
   map ev_url (probes_of 2 ''e.test:80''
     (snd (snd (test_hosts_two_phase (scripted_prober up_example) hosts_example 0)))) =
     [''http://e.test/2'', ''http://e.test/3'', ''http://e.test/4'', ''http://e.test/4''] \<and>
   card (ev_url ` set (probes_of 2 ''e.test:80''
     (snd (snd (test_hosts_two_phase (scripted_prober up_example) hosts_example 0))))) \<le> 3"
proof -
  let ?res = "test_hosts_two_phase (scripted_prober up_example) hosts_example 0"
  let ?urls = "[''http://e.test/1.m3u8'', ''http://e.test/2'', ''http://e.test/3'', ''http://e.test/4'',
      ''http://e.test/5'']"
  have c: "take 3 (filter (\<lambda>u. Some u \<noteq> pick_rep_url ?urls) ?urls) =
      [''http://e.test/2'', ''http://e.test/3'', ''http://e.test/4'']"
    by (simp add: example_reps)
  note T = fallback_probe_bound [OF example_hosts(1) example_hosts(6) refl refl refl refl refl,
      of "scripted_prober up_example" 0]
  from T have a: "card (ev_url ` set (probes_of 2 ''e.test:80'' (snd (snd ?res)))) \<le> 3" by blast
  have "length [''http://e.test/2'', ''http://e.test/3'', ''http://e.test/4''] <
      length (probes_of 2 ''e.test:80'' (snd (snd ?res)))"
    by (simp add: example_fallback_probes)
  with T [unfolded c] have "map ev_url (probes_of 2 ''e.test:80'' (snd (snd ?res))) =
      [''http://e.test/2'', ''http://e.test/3'', ''http://e.test/4''] @
      [last [''http://e.test/2'', ''http://e.test/3'', ''http://e.test/4'']]"
    by blast
  then have b: "map ev_url (probes_of 2 ''e.test:80'' (snd (snd ?res))) =
     [''http://e.test/2'', ''http://e.test/3'', ''http://e.test/4'', ''http://e.test/4'']" by simp
  from c a b show ?thesis by blast
qed

text \<open>
  The claim as written fails: for the endpoint \<open>e\<close>, with its three selected
  alternates all dead, four probe invocations are made on them.
\<close>

theorem four_fallback_probes:
  "map ev_url (probes_of 2 ''e.test:80''
     (snd (snd (test_hosts_two_phase (scripted_prober up_example) hosts_example 0)))) =
     [''http://e.test/2'', ''http://e.test/3'', ''http://e.test/4'', ''http://e.test/4''] \<and>
   length (probes_of 2 ''e.test:80''
     (snd (snd (test_hosts_two_phase (scripted_prober up_example) hosts_example 0)))) = 4"
  by (simp add: example_fallback_probes)

end
